theory Spec2Isabelle
  imports Complex_Main "HOL-Library.Char_ord" "HOL-Library.List_Lexorder"
    "HOL-Library.Product_Lexorder" "HOL-Library.Multiset"
begin

section \<open>Errors raised by the tabulation code\<close>

text \<open>
  Every exception the Python source can raise is a value.  \<open>ElectionRaceError\<close> is the
  only exception class the race raises on purpose; the others are the interpreter's own
  (division by zero in \<open>HareQuota.get_quota\<close>, a negative index into a list that is
  too short, a dictionary look-up that misses, \<open>list.remove\<close> of a value the list does
  not hold, and the unassigned local \<open>quota_provider\<close> of \<open>ElectionRace.quota\<close>).
\<close>

datatype error =
    ElectionRaceError string
  | ZeroDivisionError
  | IndexError
  | KeyError
  | ValueError
  | UnboundLocalError

section \<open>Quotas (backend/ElectionQuotas.py)\<close>

text \<open>
  Python's \<open>int(a / b)\<close> divides two integers as numbers and then truncates toward zero.
  The quotient is taken here as an exact rational: the double-precision quotient
  truncates to the same integer for every operand below \<open>2 ^ 52\<close> in magnitude.
\<close>

definition py_int :: "rat \<Rightarrow> int" where
  "py_int x = (if x < 0 then \<lceil>x\<rceil> else \<lfloor>x\<rfloor>)"

definition hare_get_quota :: "int \<Rightarrow> int \<Rightarrow> error + int" where
  "hare_get_quota voters max_winners =
     (if max_winners = 0 then Inl ZeroDivisionError
      else let return_value = py_int (of_int voters / of_int max_winners)
           in Inr (if return_value > 0 then return_value else 1))"

definition droop_get_quota :: "int \<Rightarrow> int \<Rightarrow> error + int" where
  "droop_get_quota voters max_winners =
     (let return_value =
        (if max_winners > 1 then py_int (of_int voters / of_int (max_winners + 1) + 1)
         else if max_winners = 1 then py_int (of_int (voters + 1) / 2)
         else 0)
      in Inr (if return_value > 0 then return_value else 1))"

section \<open>Candidates, voters and ballots\<close>

text \<open>
  A candidate has an identity, a display name and a party, and does not change after it
  is created.
\<close>

record candidate =
  cand_id :: string
  cand_name :: string
  cand_party :: string

text \<open>
  Modelled from the spec: the voter class is not among the source files.  A voter holds
  the ranked list of candidate ids it prefers in the race.  Its transfer values, which
  the race writes when a winner is committed, are kept in the race (\<open>voter_value\<close>
  below), keyed by voter and round number.
\<close>

record voter =
  voter_id :: string
  preferences :: "string list"

text \<open>
  Modelled from the spec: the ballot class is not among the source files.  A ballot is
  the contribution of one voter to one round: the voter, a numeric value, and the ranked
  ids of the candidates that were still running when the ballot was cast.  Values are
  exact rationals here (the source computes them in double precision).
\<close>

record ballot =
  ballot_voter :: voter
  ballot_value :: rat
  ballot_preferences :: "string list"

definition ballot_top :: "ballot \<Rightarrow> string option" where
  "ballot_top b = (case ballot_preferences b of [] \<Rightarrow> None | i # _ \<Rightarrow> Some i)"

section \<open>Candidate states and rounds\<close>

datatype state_kind = RUNNING | WON | ELIMINATED

text \<open>
  Modelled from the spec: the candidate-state class is not among the source files.  A
  state pairs the kind with the round in which it was assigned (held as the round's
  number) and the candidate.
\<close>

record candidate_state =
  state_round :: nat
  state_candidate :: candidate
  state_kind :: state_kind

datatype round_status = ROUND_INCOMPLETE | ROUND_COMPLETE

text \<open>
  Modelled from the spec: the round class is not among the source files.  A round holds
  its number, its candidates in the order they were added, the pre-state and post-state
  of each candidate, the ballots assigned to each candidate id (\<open>None\<close> is the bucket of
  exhausted ballots) and its completion flag.  The score of a candidate is the sum of the
  values of the ballots in its bucket; the source's cache of the scores is dropped by
  every \<open>add_ballot\<close>, so a score read is always the fresh sum.
\<close>

record election_round =
  round_number :: nat
  round_candidates :: "candidate list"
  pre_state :: "candidate \<Rightarrow> candidate_state option"
  post_state :: "candidate \<Rightarrow> candidate_state option"
  candidate_ballots :: "string option \<Rightarrow> ballot list"
  round_status :: round_status

definition empty_round :: "nat \<Rightarrow> election_round" where
  "empty_round n =
     \<lparr>round_number = n, round_candidates = [], pre_state = (\<lambda>_. None),
      post_state = (\<lambda>_. None), candidate_ballots = (\<lambda>_. []),
      round_status = ROUND_INCOMPLETE\<rparr>"

definition round_add_candidate :: "candidate \<Rightarrow> candidate_state \<Rightarrow> election_round \<Rightarrow> election_round" where
  "round_add_candidate c s rd =
     rd\<lparr>round_candidates := round_candidates rd @ [c],
        pre_state := (pre_state rd)(c \<mapsto> s),
        post_state := (post_state rd)(c \<mapsto> s)\<rparr>"

definition round_add_ballot :: "ballot \<Rightarrow> election_round \<Rightarrow> election_round" where
  "round_add_ballot b rd =
     rd\<lparr>candidate_ballots :=
          (candidate_ballots rd)(ballot_top b := candidate_ballots rd (ballot_top b) @ [b])\<rparr>"

definition set_candidate_state :: "candidate \<Rightarrow> candidate_state \<Rightarrow> election_round \<Rightarrow> election_round" where
  "set_candidate_state c s rd = rd\<lparr>post_state := (post_state rd)(c \<mapsto> s)\<rparr>"

definition get_candidate_ballots :: "election_round \<Rightarrow> candidate \<Rightarrow> ballot list" where
  "get_candidate_ballots rd c = candidate_ballots rd (Some (cand_id c))"

definition get_exhausted_ballots :: "election_round \<Rightarrow> ballot list" where
  "get_exhausted_ballots rd = candidate_ballots rd None"

definition get_candidate_voters :: "election_round \<Rightarrow> candidate \<Rightarrow> voter list" where
  "get_candidate_voters rd c = map ballot_voter (get_candidate_ballots rd c)"

definition get_candidate_score :: "election_round \<Rightarrow> candidate \<Rightarrow> rat" where
  "get_candidate_score rd c = sum_list (map ballot_value (get_candidate_ballots rd c))"

definition get_candidates_by_state ::
  "(election_round \<Rightarrow> candidate \<Rightarrow> candidate_state option) \<Rightarrow> state_kind \<Rightarrow> election_round \<Rightarrow> candidate list" where
  "get_candidates_by_state which k rd =
     filter (\<lambda>c. case which rd c of None \<Rightarrow> False | Some s \<Rightarrow> state_kind s = k)
       (round_candidates rd)"

definition get_candidates_changed :: "election_round \<Rightarrow> candidate list" where
  "get_candidates_changed rd =
     filter (\<lambda>c. pre_state rd c \<noteq> post_state rd c) (round_candidates rd)"

definition round_complete :: "election_round \<Rightarrow> election_round" where
  "round_complete rd = rd\<lparr>round_status := ROUND_COMPLETE\<rparr>"

section \<open>The race (backend/ElectionRace.py)\<close>

datatype race_state = ADDING | TABULATING | COMPLETE

text \<open>
  The fields of \<open>ElectionRace\<close>.  \<open>voter_value\<close> is the state of the voters that the
  race writes: the transfer value recorded for a voter in a round.
\<close>

record election_race =
  race_id :: string
  position :: string
  max_winners :: int
  extended_data :: string
  election_quota_algorithm :: string
  state :: race_state
  voters :: "voter list"
  rounds :: "election_round list"
  winners :: "candidate list"
  candidates :: "candidate list"
  transfer_voters :: "voter list"
  candidate_by_id :: "string \<Rightarrow> candidate option"
  voter_value :: "voter \<times> nat \<Rightarrow> rat option"

definition new_race :: "string \<Rightarrow> string \<Rightarrow> int \<Rightarrow> string \<Rightarrow> string \<Rightarrow> election_race" where
  "new_race election_id election_position election_max_winners election_extended_data
      quota_algorithm =
     \<lparr>race_id = election_id, position = election_position,
      max_winners = election_max_winners, extended_data = election_extended_data,
      election_quota_algorithm = quota_algorithm, state = ADDING,
      voters = [], rounds = [], winners = [], candidates = [], transfer_voters = [],
      candidate_by_id = (\<lambda>_. None), voter_value = (\<lambda>_. None)\<rparr>"

definition quota :: "election_race \<Rightarrow> error + int" where
  "quota r =
     (if election_quota_algorithm r = ''droop''
      then droop_get_quota (int (length (voters r))) (max_winners r)
      else if election_quota_algorithm r = ''hare''
      then hare_get_quota (int (length (voters r))) (max_winners r)
      else Inl UnboundLocalError)"

definition add_voter :: "voter \<Rightarrow> election_race \<Rightarrow> error option \<times> election_race" where
  "add_voter v r =
     (if state r \<noteq> ADDING
      then (Some (ElectionRaceError
              (''(Race: '' @ position r @ '') Election voter adding phase has completed.'')), r)
      else if v \<in> set (voters r) then (None, r)
      else (None, r\<lparr>voters := voters r @ [v]\<rparr>))"

definition add_candidate :: "candidate \<Rightarrow> election_race \<Rightarrow> error option \<times> election_race" where
  "add_candidate c r =
     (if state r \<noteq> ADDING
      then (Some (ElectionRaceError
              (''(Race: '' @ position r @ '') Election candidate adding phase has completed.'')), r)
      else if c \<in> set (candidates r)
      then (Some (ElectionRaceError
              (''(Race: '' @ position r @ '') Candidate is already part of this race.'')), r)
      else (None, r\<lparr>candidate_by_id := (candidate_by_id r)(cand_id c \<mapsto> c),
                     candidates := candidates r @ [c]\<rparr>))"

definition get_candidate :: "election_race \<Rightarrow> string \<Rightarrow> candidate option" where
  "get_candidate r i = (if candidate_by_id r i = None then None else candidate_by_id r i)"

definition get_round_latest :: "election_race \<Rightarrow> election_round option" where
  "get_round_latest r = (if rounds r = [] then None else Some (last (rounds r)))"

text \<open>
  The rounds are objects the race's list refers to; a change to the latest round is
  written back to the last place of the list.
\<close>

definition set_round_latest :: "election_round \<Rightarrow> election_race \<Rightarrow> election_race" where
  "set_round_latest rd r = r\<lparr>rounds := butlast (rounds r) @ [rd]\<rparr>"

section \<open>One step of the race: \<open>ElectionRace.run\<close>\<close>

subsection \<open>Creating rounds and casting a ballot\<close>

definition first_round :: "election_race \<Rightarrow> election_round" where
  "first_round r =
     foldl (\<lambda>nr c. round_add_candidate c
                      \<lparr>state_round = 1, state_candidate = c, state_kind = RUNNING\<rparr> nr)
       (empty_round 1) (candidates r)"

text \<open>
  \<open>create_new_round\<close>: the new round takes every candidate of the race with its
  post-state in the current round (a candidate the current round does not hold is a
  missed look-up), then the ballots of the candidates that did not change, then the
  exhausted ballots.  The source walks the unchanged candidates as a Python set; they
  are walked here in the order of the race's list, which fills the same buckets.
\<close>

fun add_candidates_from ::
  "election_round \<Rightarrow> candidate list \<Rightarrow> election_round \<Rightarrow> error + election_round" where
  "add_candidates_from cur [] nr = Inr nr"
| "add_candidates_from cur (c # cs) nr =
     (case post_state cur c of
        None \<Rightarrow> Inl KeyError
      | Some s \<Rightarrow> add_candidates_from cur cs (round_add_candidate c s nr))"

definition add_ballots :: "ballot list \<Rightarrow> election_round \<Rightarrow> election_round" where
  "add_ballots bs nr = foldl (\<lambda>acc b. round_add_ballot b acc) nr bs"

definition unchanged_candidates :: "election_race \<Rightarrow> election_round \<Rightarrow> candidate list" where
  "unchanged_candidates r cur =
     filter (\<lambda>c. c \<notin> set (get_candidates_changed cur)) (remdups (candidates r))"

definition create_new_round :: "election_race \<Rightarrow> election_round \<Rightarrow> error + election_round" where
  "create_new_round r cur =
     (case add_candidates_from cur (candidates r) (empty_round (round_number cur + 1)) of
        Inl e \<Rightarrow> Inl e
      | Inr nr \<Rightarrow>
          Inr (add_ballots (get_exhausted_ballots cur)
                 (add_ballots (concat (map (get_candidate_ballots cur) (unchanged_candidates r cur)))
                    nr)))"

text \<open>
  Modelled from the spec: the voter's \<open>get_race_voter_ballot\<close> is not among the source
  files.  The ballot a voter casts into a round keeps the voter's preferences that are
  among the running candidates handed over, and carries the voter's current transfer
  value: the value recorded most recently (in the latest round at or before this one),
  and 1 when none was recorded.
\<close>

fun get_race_voter_value :: "(voter \<times> nat \<Rightarrow> rat option) \<Rightarrow> voter \<Rightarrow> nat \<Rightarrow> rat" where
  "get_race_voter_value vv v 0 = (case vv (v, 0) of None \<Rightarrow> 1 | Some x \<Rightarrow> x)"
| "get_race_voter_value vv v (Suc n) =
     (case vv (v, Suc n) of None \<Rightarrow> get_race_voter_value vv v n | Some x \<Rightarrow> x)"

definition get_race_voter_ballot ::
  "election_race \<Rightarrow> voter \<Rightarrow> election_round \<Rightarrow> candidate list \<Rightarrow> ballot" where
  "get_race_voter_ballot r v rd running =
     \<lparr>ballot_voter = v,
      ballot_value = get_race_voter_value (voter_value r) v (round_number rd),
      ballot_preferences = filter (\<lambda>i. i \<in> cand_id ` set running) (preferences v)\<rparr>"

definition set_race_voter_value :: "voter \<Rightarrow> election_round \<Rightarrow> rat \<Rightarrow> election_race \<Rightarrow> election_race" where
  "set_race_voter_value v rd x r =
     r\<lparr>voter_value := (voter_value r)((v, round_number rd) \<mapsto> x)\<rparr>"

subsection \<open>Choosing the winners of a round\<close>

text \<open>
  The candidates that meet the quota, in the order of the list walked (the round's
  candidates sorted by descending score).  \<open>quota\<close> is evaluated for a candidate only
  when it is running, as the source's \<open>and\<close> does.
\<close>

fun quota_winners ::
  "election_race \<Rightarrow> (candidate \<Rightarrow> rat) \<Rightarrow> candidate list \<Rightarrow> candidate list \<Rightarrow> error + candidate list" where
  "quota_winners r scores running [] = Inr []"
| "quota_winners r scores running (c # cs) =
     (if c \<in> set running
      then (case quota r of
              Inl e \<Rightarrow> Inl e
            | Inr q \<Rightarrow>
                (case quota_winners r scores running cs of
                   Inl e \<Rightarrow> Inl e
                 | Inr ws \<Rightarrow> Inr (if scores c \<ge> of_int q then c # ws else ws)))
      else quota_winners r scores running cs)"

text \<open>Python's \<open>sorted(xs, key=k, reverse=True)\<close>: a stable sort, descending.\<close>

definition sorted_desc :: "('a \<Rightarrow> rat) \<Rightarrow> 'a list \<Rightarrow> 'a list" where
  "sorted_desc k xs = sort_key (\<lambda>x. - k x) xs"

definition select_winners ::
  "election_race \<Rightarrow> election_round \<Rightarrow> (candidate \<Rightarrow> rat) \<Rightarrow> candidate list \<Rightarrow> int \<Rightarrow> error + candidate list" where
  "select_winners r cur scores running max_round_winners =
     (if int (length running) \<le> max_round_winners then Inr running
      else quota_winners r scores running (sorted_desc scores (round_candidates cur)))"

subsection \<open>Overflow resolution\<close>

definition tie_message :: string where
  "tie_message = ''Unable to resolve tie in round winners, candidates tied the entire race.''"

text \<open>
  The inner loop of the overflow resolution.  \<open>p\<close> holds the scores of the round
  \<open>previous_round\<close> points at and \<open>ps\<close> those of the rounds before it, latest first.
  Every round holds every candidate of the race, so the look-ups into the scores do
  not miss.  \<open>xs[-2]\<close> on a list shorter than two raises, and so does \<open>list.remove\<close>
  of a value the list does not hold.
\<close>

function resolve_previous ::
  "(candidate \<Rightarrow> rat) \<Rightarrow> (candidate \<Rightarrow> rat) list \<Rightarrow> candidate list \<Rightarrow> candidate list \<Rightarrow> int
     \<Rightarrow> error + candidate list" where
  "resolve_previous p ps ws lowest m =
     (if int (length ws) > m
      then (let sl = sorted_desc p lowest in
            if length sl < 2 then Inl IndexError
            else if p (last sl) \<noteq> p (sl ! (length sl - 2))
            then (if last sl \<in> set ws
                  then resolve_previous p ps (remove1 (last sl) ws) (remove1 (last sl) lowest) m
                  else Inl ValueError)
            else (case ps of
                    [] \<Rightarrow> Inl (ElectionRaceError tie_message)
                  | p' # ps' \<Rightarrow> resolve_previous p' ps' ws lowest m))
      else Inr ws)"
  by pat_completeness auto
termination
  by (relation "measure (\<lambda>(p, ps, ws, lowest, m). length ws + length ps)")
     (auto simp: length_remove1 intro: Suc_pred' dest: length_pos_if_in_set)

declare resolve_previous.simps [simp del]

lemma resolve_previous_length:
  "resolve_previous p ps ws lowest m = Inr ws' \<Longrightarrow> int (length ws') \<le> m"
proof (induction p ps ws lowest m rule: resolve_previous.induct)
  case (1 p ps ws lowest m)
  show ?case
  proof (cases "int (length ws) > m")
    case False
    with "1.prems" show ?thesis
      by (simp add: resolve_previous.simps [of p ps ws lowest m])
  next
    case True
    with "1.prems" "1.IH" show ?thesis
      by (simp add: resolve_previous.simps [of p ps ws lowest m] Let_def
            split: if_splits list.splits)
  qed
qed

text \<open>
  The outer loop.  \<open>prevs\<close> are the scores of the rounds before the current one, latest
  first; \<open>get_round_previous\<close> of the current round is their head.
\<close>

function overflow ::
  "(candidate \<Rightarrow> rat) \<Rightarrow> (candidate \<Rightarrow> rat) list \<Rightarrow> candidate list \<Rightarrow> int \<Rightarrow> error + candidate list" where
  "overflow scores prevs ws m =
     (if int (length ws) > m
      then (if length ws < 2 then Inl IndexError
            else if scores (last ws) \<noteq> scores (ws ! (length ws - 2))
            then overflow scores prevs (butlast ws) m
            else (case prevs of
                    [] \<Rightarrow> Inl (ElectionRaceError tie_message)
                  | p # ps \<Rightarrow>
                      (case resolve_previous p ps ws
                              (filter (\<lambda>c. scores c = scores (last ws)) ws) m of
                         Inl e \<Rightarrow> Inl e
                       | Inr ws' \<Rightarrow> overflow scores prevs ws' m)))
      else Inr ws)"
  by pat_completeness auto
termination
proof (relation "measure (\<lambda>(scores, prevs, ws, m). length ws)")
  show "wf (measure (\<lambda>(scores, prevs, ws, m). length ws))"
    by simp
next
  fix scores :: "candidate \<Rightarrow> rat" and prevs ws m
  assume "m < int (length ws)" "\<not> length ws < 2"
  then show "((scores, prevs, butlast ws, m), scores, prevs, ws, m)
               \<in> measure (\<lambda>(scores, prevs, ws, m). length ws)"
    by simp
next
  fix scores :: "candidate \<Rightarrow> rat" and prevs ws m p ps ws'
  assume "m < int (length ws)"
    and "resolve_previous p ps ws (filter (\<lambda>c. scores c = scores (last ws)) ws) m = Inr ws'"
  then have "int (length ws') < int (length ws)"
    using resolve_previous_length by fastforce
  then show "((scores, prevs, ws', m), scores, prevs, ws, m)
               \<in> measure (\<lambda>(scores, prevs, ws, m). length ws)"
    by simp
qed

declare overflow.simps [simp del]

subsection \<open>Committing winners\<close>

definition transfer_value :: "rat \<Rightarrow> int \<Rightarrow> rat" where
  "transfer_value candidate_score q =
     (let surplus = candidate_score - of_int q
      in if surplus > 0 then surplus / candidate_score else 1)"

definition won_state :: "election_round \<Rightarrow> candidate \<Rightarrow> candidate_state" where
  "won_state rd c = \<lparr>state_round = round_number rd, state_candidate = c, state_kind = WON\<rparr>"

definition eliminated_state :: "election_round \<Rightarrow> candidate \<Rightarrow> candidate_state" where
  "eliminated_state rd c =
     \<lparr>state_round = round_number rd, state_candidate = c, state_kind = ELIMINATED\<rparr>"

definition set_transfer_values :: "ballot list \<Rightarrow> election_round \<Rightarrow> rat \<Rightarrow> election_race \<Rightarrow> election_race" where
  "set_transfer_values bs rd t r =
     foldl (\<lambda>acc b. set_race_voter_value (ballot_voter b) rd (ballot_value b * t) acc) r bs"

text \<open>
  The body of the loop over the round's winners.  The race and its current round are
  threaded as a pair; an exception leaves what was written before it.
\<close>

fun commit_winner ::
  "candidate \<Rightarrow> (candidate \<Rightarrow> rat) \<Rightarrow> election_race \<times> election_round
     \<Rightarrow> error option \<times> election_race \<times> election_round" where
  "commit_winner c scores (r, cur) =
     (let cur1 = set_candidate_state c (won_state cur c) cur;
          candidate_voters = get_candidate_voters cur1 c;
          ballots = get_candidate_ballots cur1 c
      in case quota r of
           Inl e \<Rightarrow> (Some e, r, cur1)
         | Inr q \<Rightarrow>
             (let r1 = set_transfer_values ballots cur1 (transfer_value (scores c) q) r
              in (None,
                  r1\<lparr>transfer_voters := transfer_voters r1 @ candidate_voters,
                     winners := winners r1 @ [c]\<rparr>,
                  cur1)))"

fun commit_winners ::
  "candidate list \<Rightarrow> (candidate \<Rightarrow> rat) \<Rightarrow> election_race \<times> election_round
     \<Rightarrow> error option \<times> election_race \<times> election_round" where
  "commit_winners [] scores rc = (None, rc)"
| "commit_winners (c # cs) scores rc =
     (case commit_winner c scores rc of
        (Some e, rc') \<Rightarrow> (Some e, rc')
      | (None, rc') \<Rightarrow> commit_winners cs scores rc')"

subsection \<open>After the winners: completing the round, or eliminating\<close>

definition eliminate_remaining :: "election_round \<Rightarrow> election_round" where
  "eliminate_remaining cur =
     foldl (\<lambda>acc c. set_candidate_state c (eliminated_state acc c) acc) cur
       (get_candidates_by_state post_state RUNNING cur)"

definition finish_with_winners :: "election_race \<Rightarrow> election_round \<Rightarrow> election_race" where
  "finish_with_winners r cur =
     (let cur1 = (if int (length (winners r)) = max_winners r
                  then eliminate_remaining cur else cur);
          cur2 = round_complete cur1;
          r1 = (if get_candidates_by_state post_state RUNNING cur2 = []
                then r\<lparr>state := COMPLETE\<rparr> else r)
      in set_round_latest cur2 r1)"

text \<open>
  One pass of the loop that looks for the lowest candidates; \<open>lowest_candidates\<close> is never
  empty while the loop runs.
\<close>

fun lowest_step :: "(candidate \<Rightarrow> rat) \<Rightarrow> candidate list \<Rightarrow> candidate \<Rightarrow> candidate list" where
  "lowest_step scores (l # ls) c =
     (if scores c < scores l then [c]
      else if scores c = scores l \<and> c \<notin> set (l # ls) then (l # ls) @ [c]
      else l # ls)"
| "lowest_step scores [] c = []"

definition eliminated_candidates :: "(candidate \<Rightarrow> rat) \<Rightarrow> candidate list \<Rightarrow> candidate list" where
  "eliminated_candidates scores running =
     (let zero = filter (\<lambda>c. scores c = 0) running;
          lowest0 = (case filter (\<lambda>c. c \<notin> set zero) running of [] \<Rightarrow> [] | c # _ \<Rightarrow> [c])
      in if lowest0 \<noteq> [] then zero @ foldl (lowest_step scores) lowest0 running else zero)"

definition eliminate_one :: "election_race \<times> election_round \<Rightarrow> candidate \<Rightarrow> election_race \<times> election_round" where
  "eliminate_one rc c =
     (case rc of (r, cur) \<Rightarrow>
        (let cur1 = set_candidate_state c (eliminated_state cur c) cur
         in (r\<lparr>transfer_voters := transfer_voters r @ get_candidate_voters cur1 c\<rparr>, cur1)))"

definition eliminate_lowest ::
  "election_race \<Rightarrow> election_round \<Rightarrow> (candidate \<Rightarrow> rat) \<Rightarrow> candidate list \<Rightarrow> election_race" where
  "eliminate_lowest r cur scores running =
     (case foldl eliminate_one (r, cur) (eliminated_candidates scores running) of
        (r1, cur1) \<Rightarrow> set_round_latest (round_complete cur1) r1)"

subsection \<open>Tabulation and the dispatch of \<open>run\<close>\<close>

definition previous_scores :: "election_race \<Rightarrow> (candidate \<Rightarrow> rat) list" where
  "previous_scores r = map get_candidate_score (rev (butlast (rounds r)))"

text \<open>
  The two checks that open the tabulation: no candidate is running, and no voter is in
  the race.  Neither returns; both only write the state (and complete the round).
\<close>

definition tabulation_start ::
  "election_race \<Rightarrow> election_round \<Rightarrow> candidate list \<Rightarrow> election_race \<times> election_round" where
  "tabulation_start r0 cur0 running =
     (let r1 = (if length running = 0 then r0\<lparr>state := COMPLETE\<rparr> else r0)
      in if length (voters r1) = 0
         then (r1\<lparr>state := COMPLETE\<rparr>, round_complete cur0)
         else (r1, cur0))"

text \<open>The winners of the round: the selection, then the overflow resolution.\<close>

definition round_winners ::
  "election_race \<Rightarrow> election_round \<Rightarrow> (candidate \<Rightarrow> rat) \<Rightarrow> candidate list \<Rightarrow> error + candidate list" where
  "round_winners r cur scores running =
     (let max_round_winners = max_winners r - int (length (winners r))
      in case select_winners r cur scores running max_round_winners of
           Inl e \<Rightarrow> Inl e
         | Inr candidates_meeting \<Rightarrow>
             overflow scores (previous_scores r) candidates_meeting max_round_winners)"

definition tabulate :: "election_race \<Rightarrow> election_round \<Rightarrow> error option \<times> election_race" where
  "tabulate r0 cur0 =
     (let scores = get_candidate_score cur0;
          running = get_candidates_by_state pre_state RUNNING cur0
      in case tabulation_start r0 cur0 running of
           (r, cur) \<Rightarrow>
             (case round_winners r cur scores running of
                Inl e \<Rightarrow> (Some e, set_round_latest cur r)
              | Inr current_round_winners \<Rightarrow>
                  (case commit_winners current_round_winners scores (r, cur) of
                     (Some e, r2, cur2) \<Rightarrow> (Some e, set_round_latest cur2 r2)
                   | (None, r2, cur2) \<Rightarrow>
                       (None,
                        if current_round_winners \<noteq> []
                        then finish_with_winners r2 cur2
                        else eliminate_lowest r2 cur2 scores running))))"

definition cast_ballot :: "election_race \<Rightarrow> election_round \<Rightarrow> voter \<Rightarrow> voter list \<Rightarrow> election_race" where
  "cast_ballot r cur transfer_voter remaining =
     (let r1 = r\<lparr>transfer_voters := remaining\<rparr>;
          b = get_race_voter_ballot r1 transfer_voter cur
                (get_candidates_by_state pre_state RUNNING cur)
      in set_round_latest (round_add_ballot b cur) r1)"

definition run :: "election_race \<Rightarrow> error option \<times> election_race" where
  "run r0 =
     (if state r0 = COMPLETE then (None, r0)
      else
        (let r = r0\<lparr>state := TABULATING\<rparr> in
         case get_round_latest r of
           None \<Rightarrow>
             (None, r\<lparr>rounds := rounds r @ [first_round r], transfer_voters := voters r\<rparr>)
         | Some current_round \<Rightarrow>
             if round_status current_round = ROUND_COMPLETE
             then (case create_new_round r current_round of
                     Inl e \<Rightarrow> (Some e, r)
                   | Inr nr \<Rightarrow> (None, r\<lparr>rounds := rounds r @ [nr]\<rparr>))
             else (case transfer_voters r of
                     transfer_voter # remaining \<Rightarrow>
                       (None, cast_ballot r current_round transfer_voter remaining)
                   | [] \<Rightarrow> tabulate r current_round)))"

text \<open>
  \<open>run_complete\<close> loops until the race is complete; an exception of \<open>run\<close> leaves the
  loop.  A loop that never ends is the value \<open>None\<close>.
\<close>

partial_function (option) run_complete :: "election_race \<Rightarrow> (error option \<times> election_race) option" where
  "run_complete r =
     (if state r = COMPLETE then Some (None, r)
      else (case run r of
              (Some e, r') \<Rightarrow> Some (Some e, r')
            | (None, r') \<Rightarrow> run_complete r'))"

subsection \<open>Sequences of calls\<close>

datatype operation = Add_candidate candidate | Add_voter voter | Run

fun apply_operation :: "operation \<Rightarrow> election_race \<Rightarrow> error option \<times> election_race" where
  "apply_operation (Add_candidate c) r = add_candidate c r"
| "apply_operation (Add_voter v) r = add_voter v r"
| "apply_operation Run r = run r"

text \<open>
  The race after a sequence of calls; a call that raises leaves the race as the exception
  left it, and the caller goes on.
\<close>

definition apply_operations :: "operation list \<Rightarrow> election_race \<Rightarrow> election_race" where
  "apply_operations ops r = foldl (\<lambda>acc operation. snd (apply_operation operation acc)) r ops"

section \<open>The data table of a round: \<open>ElectionRace.get_data_table\<close>\<close>

definition round_down :: "rat \<Rightarrow> nat \<Rightarrow> rat" where
  "round_down x places = of_int \<lfloor>x * 10 ^ places\<rfloor> / 10 ^ places"

text \<open>
  A row of the table.  The source prints the score column as text: \<open>"q (x)"\<close> for a
  winner, \<open>"x"\<close> for a running candidate and \<open>"0 (x)"\<close> for an eliminated one, with \<open>x\<close>
  the score cut to four decimals; the numbers are kept here instead of their text.
\<close>

datatype score_display = Score rat | Score_of int rat

record table_row =
  row_name :: string
  row_party :: string
  row_status :: string
  row_score :: score_display
  row_quota_percentage :: rat

text \<open>
  A candidate state refers to the round that assigned it; with the reference held as a
  round number, the round is looked up among the rounds of the race (every state of a
  race names one of its rounds).
\<close>

definition score_in_round :: "election_race \<Rightarrow> nat \<Rightarrow> candidate \<Rightarrow> rat" where
  "score_in_round r n c =
     (case find (\<lambda>rd. round_number rd = n) (rounds r) of
        None \<Rightarrow> 0
      | Some rd \<Rightarrow> get_candidate_score rd c)"

text \<open>The candidates of a state group, each with its state in the chosen column.\<close>

definition candidates_with_state ::
  "(election_round \<Rightarrow> candidate \<Rightarrow> candidate_state option) \<Rightarrow> state_kind \<Rightarrow> election_round
     \<Rightarrow> (candidate \<times> candidate_state) list" where
  "candidates_with_state which k rd =
     List.map_filter
       (\<lambda>c. case which rd c of
               None \<Rightarrow> None
             | Some s \<Rightarrow> if state_kind s = k then Some (c, s) else None)
       (round_candidates rd)"

definition won_key ::
  "election_race \<Rightarrow> election_round \<Rightarrow> candidate \<times> candidate_state \<Rightarrow> int \<times> rat \<times> string \<times> string" where
  "won_key r rd cs =
     (case cs of (c, s) \<Rightarrow>
        (- 1 * (int (round_number rd) - int (state_round s)),
         - 1 * score_in_round r (state_round s) c,
         cand_party c, cand_name c))"

definition running_key ::
  "election_round \<Rightarrow> candidate \<times> candidate_state \<Rightarrow> rat \<times> string \<times> string" where
  "running_key rd cs =
     (case cs of (c, s) \<Rightarrow> (- 1 * get_candidate_score rd c, cand_party c, cand_name c))"

definition eliminated_key ::
  "election_race \<Rightarrow> candidate \<times> candidate_state \<Rightarrow> int \<times> rat \<times> string \<times> string" where
  "eliminated_key r cs =
     (case cs of (c, s) \<Rightarrow>
        (- 1 * int (state_round s),
         - 1 * score_in_round r (state_round s) c,
         cand_party c, cand_name c))"

definition table_group_won ::
  "election_race \<Rightarrow> election_round \<Rightarrow> (election_round \<Rightarrow> candidate \<Rightarrow> candidate_state option)
     \<Rightarrow> (candidate \<times> candidate_state) list" where
  "table_group_won r rd which = sort_key (won_key r rd) (candidates_with_state which WON rd)"

definition table_group_running ::
  "election_round \<Rightarrow> (election_round \<Rightarrow> candidate \<Rightarrow> candidate_state option)
     \<Rightarrow> (candidate \<times> candidate_state) list" where
  "table_group_running rd which = sort_key (running_key rd) (candidates_with_state which RUNNING rd)"

definition table_group_eliminated ::
  "election_race \<Rightarrow> election_round \<Rightarrow> (election_round \<Rightarrow> candidate \<Rightarrow> candidate_state option)
     \<Rightarrow> (candidate \<times> candidate_state) list" where
  "table_group_eliminated r rd which =
     sort_key (eliminated_key r) (candidates_with_state which ELIMINATED rd)"

definition won_row :: "election_race \<Rightarrow> int \<Rightarrow> candidate \<times> candidate_state \<Rightarrow> table_row" where
  "won_row r q cs =
     (case cs of (c, s) \<Rightarrow>
        (let candidate_score = score_in_round r (state_round s) c
         in \<lparr>row_name = cand_name c, row_party = cand_party c, row_status = ''WON'',
             row_score = Score_of q (round_down candidate_score 4),
             row_quota_percentage = candidate_score / of_int q\<rparr>))"

definition running_row :: "election_round \<Rightarrow> int \<Rightarrow> candidate \<times> candidate_state \<Rightarrow> table_row" where
  "running_row rd q cs =
     (case cs of (c, s) \<Rightarrow>
        (let candidate_score = get_candidate_score rd c
         in \<lparr>row_name = cand_name c, row_party = cand_party c, row_status = ''RUNNING'',
             row_score = Score (round_down candidate_score 4),
             row_quota_percentage = candidate_score / of_int q\<rparr>))"

definition eliminated_row ::
  "election_race \<Rightarrow> election_round \<Rightarrow> candidate list \<Rightarrow> candidate \<times> candidate_state \<Rightarrow> table_row" where
  "eliminated_row r rd previous_changed cs =
     (case cs of (c, s) \<Rightarrow>
        (let candidate_score = score_in_round r (state_round s) c
         in \<lparr>row_name = cand_name c, row_party = cand_party c,
             row_status = (if round_status rd \<noteq> ROUND_COMPLETE \<and> c \<in> set previous_changed
                           then ''TRANSFERRING'' else ''ELIMINATED''),
             row_score = Score_of 0 (round_down candidate_score 4),
             row_quota_percentage = 0\<rparr>))"

text \<open>
  The round is an object of the race; it is named here by its place \<open>i\<close> in the race's
  list of rounds, and \<open>get_round_previous\<close> is the place before it.
\<close>

definition get_data_table :: "election_race \<Rightarrow> nat \<Rightarrow> error + table_row list" where
  "get_data_table r i =
     (if i \<ge> length (rounds r) then Inl ValueError
      else
        (let rd = rounds r ! i in
         case quota r of
           Inl e \<Rightarrow> Inl e
         | Inr q \<Rightarrow>
             (let previous_changed =
                    (if i = 0 then [] else get_candidates_changed (rounds r ! (i - 1)));
                  which = (if round_status rd = ROUND_INCOMPLETE then pre_state else post_state)
              in Inr (map (won_row r q) (table_group_won r rd which)
                      @ map (running_row rd q) (table_group_running rd which)
                      @ map (eliminated_row r rd previous_changed)
                          (table_group_eliminated r rd which)))))"

section \<open>What a step never changes\<close>

text \<open>
  The configuration of a race and its lists of candidates and voters: \<open>run\<close> writes none
  of them.
\<close>

definition same_setup :: "election_race \<Rightarrow> election_race \<Rightarrow> bool" where
  "same_setup r r' \<longleftrightarrow>
     race_id r' = race_id r \<and> position r' = position r \<and> max_winners r' = max_winners r
     \<and> extended_data r' = extended_data r
     \<and> election_quota_algorithm r' = election_quota_algorithm r
     \<and> voters r' = voters r \<and> candidates r' = candidates r
     \<and> candidate_by_id r' = candidate_by_id r"

section \<open>The registry of candidates\<close>

text \<open>
  The dictionary \<open>_candidate_id\<close> agrees with the list of candidates: an id maps to the
  candidate added last under it.
\<close>

definition registry_ok :: "election_race \<Rightarrow> bool" where
  "registry_ok r \<longleftrightarrow>
     (\<forall>k. candidate_by_id r k = find (\<lambda>c. cand_id c = k) (rev (candidates r)))"

section \<open>Marking candidates in a round\<close>

text \<open>
  \<open>marks k cs rd rd'\<close>: the round \<open>rd'\<close> is \<open>rd\<close> with the post-state of every candidate of
  \<open>cs\<close> set to kind \<open>k\<close> in this round, and nothing else changed.  The loops of \<open>run\<close> that
  write states are described by it.
\<close>

definition marks :: "state_kind \<Rightarrow> candidate list \<Rightarrow> election_round \<Rightarrow> election_round \<Rightarrow> bool" where
  "marks k cs rd rd' \<longleftrightarrow>
     round_number rd' = round_number rd \<and> round_candidates rd' = round_candidates rd
     \<and> pre_state rd' = pre_state rd \<and> candidate_ballots rd' = candidate_ballots rd
     \<and> round_status rd' = round_status rd
     \<and> (\<forall>c. post_state rd' c =
               (if c \<in> set cs
                then Some \<lparr>state_round = round_number rd, state_candidate = c, state_kind = k\<rparr>
                else post_state rd c))"

section \<open>The invariant of a race\<close>

text \<open>
  A race is set up as the data model says: at least one seat, and the Droop or the Hare
  quota.
\<close>

definition valid_setup :: "election_race \<Rightarrow> bool" where
  "valid_setup r \<longleftrightarrow>
     1 \<le> max_winners r
     \<and> (election_quota_algorithm r = ''droop'' \<or> election_quota_algorithm r = ''hare'')"

text \<open>No candidate is left running after the latest round.\<close>

definition none_running :: "election_race \<Rightarrow> bool" where
  "none_running r \<longleftrightarrow>
     rounds r \<noteq> [] \<and> get_candidates_by_state post_state RUNNING (last (rounds r)) = []"

text \<open>
  What every call keeps: the winners fit the seats; a complete race has filled its seats
  or has no running candidate left; a round that is not complete has no state written
  yet; and a race without voters holds no ballot and no queued voter.
\<close>

definition race_inv :: "election_race \<Rightarrow> bool" where
  "race_inv r \<longleftrightarrow>
     int (length (winners r)) \<le> max_winners r
     \<and> (state r = COMPLETE \<longrightarrow> int (length (winners r)) = max_winners r \<or> none_running r)
     \<and> (rounds r \<noteq> [] \<and> round_status (last (rounds r)) = ROUND_INCOMPLETE \<longrightarrow>
          post_state (last (rounds r)) = pre_state (last (rounds r)))
     \<and> (voters r = [] \<longrightarrow>
          transfer_voters r = [] \<and> (\<forall>rd \<in> set (rounds r). \<forall>k. candidate_ballots rd k = []))"

section \<open>Well-formed rounds\<close>

text \<open>
  A round of the race files each ballot under the ballot's top preference, as
  \<open>add_ballot\<close> does, and holds a state for every candidate of the race.
\<close>

definition round_wf :: "candidate list \<Rightarrow> election_round \<Rightarrow> bool" where
  "round_wf cs rd \<longleftrightarrow>
     (\<forall>k. \<forall>b \<in> set (candidate_ballots rd k). ballot_top b = k)
     \<and> (\<forall>c \<in> set cs. post_state rd c \<noteq> None)"

definition rounds_wf :: "election_race \<Rightarrow> bool" where
  "rounds_wf r \<longleftrightarrow>
     (\<forall>rd \<in> set (rounds r). round_wf (candidates r) rd)
     \<and> (state r = ADDING \<longrightarrow> rounds r = [])"

section \<open>Example races\<close>

text \<open>Concrete candidates, voters and races, used to instantiate the theorems below.\<close>

definition ann :: candidate where
  "ann = \<lparr>cand_id = ''A'', cand_name = ''Ann'', cand_party = ''Red''\<rparr>"

definition bob :: candidate where
  "bob = \<lparr>cand_id = ''B'', cand_name = ''Bob'', cand_party = ''Red''\<rparr>"

definition cyd :: candidate where
  "cyd = \<lparr>cand_id = ''C'', cand_name = ''Cyd'', cand_party = ''Blue''\<rparr>"

definition mk_voter :: "string \<Rightarrow> string list \<Rightarrow> voter" where
  "mk_voter n ps = \<lparr>voter_id = n, preferences = ps\<rparr>"

definition empty_race :: election_race where
  "empty_race = new_race ''1'' ''President'' 1 [] ''droop''"

text \<open>A one-seat race with Ann as its only candidate and no voter, run twice.\<close>

definition unopposed_race :: election_race where
  "unopposed_race = apply_operations [Add_candidate ann, Run, Run] empty_race"

text \<open>
  A one-seat race of Ann and Bob with three voters, all ranking Ann first, after the first
  round was created and the three ballots were cast (four calls of \<open>run\<close>).
\<close>

definition majority_operations :: "operation list" where
  "majority_operations =
     [Add_candidate ann, Add_candidate bob,
      Add_voter (mk_voter ''1'' [''A'', ''B'']), Add_voter (mk_voter ''2'' [''A'']),
      Add_voter (mk_voter ''3'' [''A'', ''B'']),
      Run, Run, Run, Run]"



text \<open>
  A three-seat Hare race of five candidates and ten voters (quota 3).  Ann and Bob are
  elected in round 1 with exactly the quota, so their voters transfer at full value; in
  round 2 Cyd has 4 votes and Dee and Eve have 3 each, for one remaining seat.
\<close>

definition dee :: candidate where
  "dee = \<lparr>cand_id = ''D'', cand_name = ''Dee'', cand_party = ''Blue''\<rparr>"

definition eve :: candidate where
  "eve = \<lparr>cand_id = ''E'', cand_name = ''Eve'', cand_party = ''Green''\<rparr>"

definition hare_race :: election_race where
  "hare_race =
     apply_operations
       [Add_candidate ann, Add_candidate bob, Add_candidate cyd, Add_candidate dee,
        Add_candidate eve,
        Add_voter (mk_voter ''1'' [''A'', ''C'']), Add_voter (mk_voter ''2'' [''A'', ''C'']),
        Add_voter (mk_voter ''3'' [''A'', ''C'']), Add_voter (mk_voter ''4'' [''B'', ''D'']),
        Add_voter (mk_voter ''5'' [''B'', ''E'']), Add_voter (mk_voter ''6'' [''B'', ''E'']),
        Add_voter (mk_voter ''7'' [''C'']), Add_voter (mk_voter ''8'' [''D'']),
        Add_voter (mk_voter ''9'' [''D'']), Add_voter (mk_voter ''10'' [''E''])]
       (new_race ''2'' ''Council'' 3 [] ''hare'')"

definition hare_race_round2 :: election_race where
  "hare_race_round2 = apply_operations (replicate 19 Run) hare_race"

text \<open>
  What is read off a race that is about to tabulate: the ids of its winners, its seats,
  its transfer queue, the scores of the given candidates in the first and in the latest
  round, and the exception of the next call of \<open>run\<close>.
\<close>

definition tabulation_view ::
  "candidate list \<Rightarrow> election_race
     \<Rightarrow> string list \<times> int \<times> voter list \<times> rat list \<times> rat list \<times> error option" where
  "tabulation_view cs r =
     (map cand_id (winners r), max_winners r, transfer_voters r,
      map (get_candidate_score (hd (rounds r))) cs,
      map (get_candidate_score (last (rounds r))) cs,
      fst (run r))"

text \<open>
  A two-seat Droop race of Ann, Bob and Cyd with three voters (quota 2), after round 1
  was created, the three ballots were cast and the round was tabulated: Ann is elected
  with exactly the quota, and round 1 is complete.
\<close>

definition two_seat_operations :: "operation list" where
  "two_seat_operations =
     [Add_candidate ann, Add_candidate bob, Add_candidate cyd,
      Add_voter (mk_voter ''1'' [''A'', ''B'']), Add_voter (mk_voter ''2'' [''A'', ''C'']),
      Add_voter (mk_voter ''3'' [''B'']),
      Run, Run, Run, Run, Run]"

definition two_seat_race :: election_race where
  "two_seat_race = apply_operations two_seat_operations (new_race ''3'' ''Board'' 2 [] ''droop'')"

text \<open>
  The two-seat race run to its end: round 2 elects Bob and eliminates Cyd.  And what is
  read off the table of its latest round: the name and status of each row, and the round
  in which each candidate of the WON group won, in the order of the table.
\<close>

definition two_seat_final :: election_race where
  "two_seat_final = apply_operations [Run, Run, Run, Run] two_seat_race"

definition table_view ::
  "election_race \<Rightarrow> nat \<Rightarrow> (error + (string \<times> string) list) \<times> (string \<times> nat) list" where
  "table_view r i =
     (map_sum id (map (\<lambda>row. (row_name row, row_status row))) (get_data_table r i),
      map (\<lambda>cs. (cand_name (fst cs), state_round (snd cs)))
        (table_group_won r (rounds r ! i)
           (if round_status (rounds r ! i) = ROUND_INCOMPLETE then pre_state else post_state)))"

section \<open>Properties of the quotas\<close>






lemma droop_get_quota_ge1: "\<exists>q. droop_get_quota v m = Inr q \<and> 1 \<le> q"
  by (simp add: droop_get_quota_def Let_def)

lemma hare_get_quota_ge1: "m \<noteq> 0 \<Longrightarrow> \<exists>q. hare_get_quota v m = Inr q \<and> 1 \<le> q"
  by (simp add: hare_get_quota_def Let_def)




section \<open>Running a race that is complete\<close>


lemma run_complete_returns_complete:
  assumes "run_complete r = Some (None, r')"
  shows "state r' = COMPLETE"
proof -
  have "fst y = None \<longrightarrow> state (snd y) = COMPLETE" if "run_complete r = Some y" for y
  proof (rule run_complete.raw_induct
      [where P = "\<lambda>r y. fst y = None \<longrightarrow> state (snd y) = COMPLETE", OF _ that])
    fix rc :: "election_race \<Rightarrow> (error option \<times> election_race) option" and r y
    assume ih: "\<And>x y. rc x = Some y \<Longrightarrow> fst y = None \<longrightarrow> state (snd y) = COMPLETE"
      and eq: "(if state r = COMPLETE then Some (None, r)
                else case run r of (None, r') \<Rightarrow> rc r' | (Some e, r') \<Rightarrow> Some (Some e, r')) = Some y"
    show "fst y = None \<longrightarrow> state (snd y) = COMPLETE"
    proof (cases "state r = COMPLETE")
      case True
      with eq show ?thesis by auto
    next
      case False
      obtain e r' where rr: "run r = (e, r')"
        by (cases "run r")
      show ?thesis
      proof (cases e)
        case None
        with eq False rr have "rc r' = Some y" by simp
        then show ?thesis by (rule ih)
      next
        case (Some err)
        with eq False rr show ?thesis by auto
      qed
    qed
  qed
  with assms show ?thesis by fastforce
qed

text \<open>
  C9.  Calling \<open>run\<close> on a race whose state is COMPLETE returns at once and leaves the
  race as it was (every field, so state, rounds, winners and transfer-voter queue);
  \<open>run_complete\<close> on such a race returns at once with the race unchanged, and a race
  that \<open>run_complete\<close> returned is one it returns unchanged again.
\<close>

theorem run_when_complete:
  "(state r = COMPLETE \<longrightarrow> run r = (None, r) \<and> run_complete r = Some (None, r))
   \<and> (run_complete r0 = Some (None, r1) \<longrightarrow> run_complete r1 = Some (None, r1))"
proof (intro conjI impI)
  assume "state r = COMPLETE"
  then show "run r = (None, r)"
    by (simp add: run_def)
next
  assume "state r = COMPLETE"
  then show "run_complete r = Some (None, r)"
    by (subst run_complete.simps) simp
next
  assume "run_complete r0 = Some (None, r1)"
  then have "state r1 = COMPLETE"
    by (rule run_complete_returns_complete)
  then show "run_complete r1 = Some (None, r1)"
    by (subst run_complete.simps) simp
qed

theorem run_when_complete_witness:
  "state (apply_operations [Run, Run] empty_race) = COMPLETE
   \<and> run (apply_operations [Run, Run] empty_race) = (None, apply_operations [Run, Run] empty_race)
   \<and> run_complete (apply_operations [Run] empty_race)
       = Some (None, apply_operations [Run, Run] empty_race)
   \<and> run_complete (apply_operations [Run, Run] empty_race)
       = Some (None, apply_operations [Run, Run] empty_race)"
proof -
  let ?r0 = "apply_operations [Run] empty_race"
  let ?r1 = "apply_operations [Run, Run] empty_race"
  have fin: "state ?r1 = COMPLETE"
    by code_simp
  have going: "state ?r0 \<noteq> COMPLETE"
    by code_simp
  have "fst (run ?r0) = None"
    by code_simp
  moreover have "snd (run ?r0) = ?r1"
    by (simp add: apply_operations_def)
  ultimately have step: "run ?r0 = (None, ?r1)"
    by (simp add: prod_eq_iff)
  have fixed: "run ?r1 = (None, ?r1) \<and> run_complete ?r1 = Some (None, ?r1)"
    using run_when_complete [of ?r1] fin by blast
  have "run_complete ?r0 = Some (None, ?r1)"
    using going step fixed by (subst run_complete.simps) simp
  then have "run_complete ?r1 = Some (None, ?r1)"
    using run_when_complete [of _ ?r0 ?r1] by blast
  with fin fixed \<open>run_complete ?r0 = Some (None, ?r1)\<close> show ?thesis
    by simp
qed

section \<open>Frame lemmas: the fields \<open>run\<close> leaves alone\<close>

lemma same_setup_refl [simp]: "same_setup r r"
  by (simp add: same_setup_def)

lemma same_setup_trans: "same_setup a b \<Longrightarrow> same_setup b c \<Longrightarrow> same_setup a c"
  by (simp add: same_setup_def)

lemma same_setup_quota: "same_setup r r' \<Longrightarrow> quota r' = quota r"
  by (simp add: same_setup_def quota_def)

lemma same_setup_updates [simp]:
  "same_setup r (r'\<lparr>state := s\<rparr>) = same_setup r r'"
  "same_setup r (r'\<lparr>rounds := rs\<rparr>) = same_setup r r'"
  "same_setup r (r'\<lparr>winners := ws\<rparr>) = same_setup r r'"
  "same_setup r (r'\<lparr>transfer_voters := vs\<rparr>) = same_setup r r'"
  "same_setup r (r'\<lparr>voter_value := vv\<rparr>) = same_setup r r'"
  by (simp_all add: same_setup_def)

lemma same_setup_set_round_latest [simp]:
  "same_setup r (set_round_latest rd r') = same_setup r r'"
  by (simp add: set_round_latest_def)

lemma same_setup_set_transfer_values [simp]:
  "same_setup r (set_transfer_values bs rd t r') = same_setup r r'"
  unfolding set_transfer_values_def
  by (induction bs arbitrary: r') (simp_all add: set_race_voter_value_def)

lemma same_setup_commit_winner:
  "commit_winner c scores (r, cur) = (e, r', cur') \<Longrightarrow> same_setup r r'"
  by (auto simp: Let_def split: sum.splits)

lemma same_setup_commit_winners:
  "commit_winners ws scores (r, cur) = (e, r', cur') \<Longrightarrow> same_setup r r'"
proof (induction ws arbitrary: r cur)
  case Nil
  then show ?case by simp
next
  case (Cons c cs)
  obtain e1 r1 cur1 where one: "commit_winner c scores (r, cur) = (e1, r1, cur1)"
    by (cases "commit_winner c scores (r, cur)") auto
  then have s1: "same_setup r r1"
    by (rule same_setup_commit_winner)
  show ?case
  proof (cases e1)
    case None
    with Cons.prems one have "commit_winners cs scores (r1, cur1) = (e, r', cur')"
      by simp
    then have "same_setup r1 r'" by (rule Cons.IH)
    with s1 show ?thesis by (rule same_setup_trans)
  next
    case (Some err)
    with Cons.prems one have "r' = r1" by simp
    with s1 show ?thesis by simp
  qed
qed

lemma same_setup_finish_with_winners [simp]:
  "same_setup r (finish_with_winners r' cur) = same_setup r r'"
  by (simp add: finish_with_winners_def Let_def)

lemma same_setup_foldl_eliminate_one:
  "foldl eliminate_one (r, cur) cs = (r', cur') \<Longrightarrow> same_setup r0 r' = same_setup r0 r"
proof (induction cs arbitrary: r cur)
  case Nil
  then show ?case by simp
next
  case (Cons c cs)
  obtain r1 cur1 where one: "eliminate_one (r, cur) c = (r1, cur1)"
    by (cases "eliminate_one (r, cur) c")
  then have "same_setup r0 r1 = same_setup r0 r"
    by (auto simp: eliminate_one_def Let_def)
  moreover from Cons.prems one have "foldl eliminate_one (r1, cur1) cs = (r', cur')"
    by simp
  then have "same_setup r0 r' = same_setup r0 r1"
    by (rule Cons.IH)
  ultimately show ?case by simp
qed

lemma same_setup_eliminate_lowest [simp]:
  "same_setup r (eliminate_lowest r' cur scores running) = same_setup r r'"
proof -
  obtain r1 cur1 where f: "foldl eliminate_one (r', cur) (eliminated_candidates scores running) = (r1, cur1)"
    by (cases "foldl eliminate_one (r', cur) (eliminated_candidates scores running)")
  then have "same_setup r r1 = same_setup r r'"
    by (rule same_setup_foldl_eliminate_one)
  with f show ?thesis
    by (simp add: eliminate_lowest_def)
qed

lemma same_setup_tabulation_start:
  "tabulation_start r cur running = (r1, cur1) \<Longrightarrow> same_setup r r1"
  by (auto simp: tabulation_start_def Let_def split: if_splits)

lemma same_setup_tabulate: "same_setup r (snd (tabulate r cur))"
proof -
  let ?scores = "get_candidate_score cur"
  let ?running = "get_candidates_by_state pre_state RUNNING cur"
  obtain r1 cur1 where start: "tabulation_start r cur ?running = (r1, cur1)"
    by (cases "tabulation_start r cur ?running")
  then have s1: "same_setup r r1"
    by (rule same_setup_tabulation_start)
  show ?thesis
  proof (cases "round_winners r1 cur1 ?scores ?running")
    case (Inl e)
    with start s1 show ?thesis
      by (simp add: tabulate_def)
  next
    case (Inr ws)
    obtain e r2 cur2 where com: "commit_winners ws ?scores (r1, cur1) = (e, r2, cur2)"
      by (cases "commit_winners ws ?scores (r1, cur1)") auto
    then have "same_setup r1 r2"
      by (rule same_setup_commit_winners)
    with s1 have "same_setup r r2"
      by (rule same_setup_trans)
    with start Inr com show ?thesis
      by (cases e) (simp_all add: tabulate_def)
  qed
qed

lemma same_setup_run: "same_setup r (snd (run r))"
proof (cases "state r = COMPLETE")
  case True
  then show ?thesis by (simp add: run_def)
next
  case False
  let ?r = "r\<lparr>state := TABULATING\<rparr>"
  have base: "same_setup r ?r"
    by (simp add: same_setup_def)
  show ?thesis
  proof (cases "get_round_latest ?r")
    case None
    with False show ?thesis by (simp add: run_def Let_def)
  next
    case (Some cur)
    show ?thesis
    proof (cases "round_status cur = ROUND_COMPLETE")
      case True
      with False Some show ?thesis
        by (simp add: run_def Let_def split: sum.splits)
    next
      case open_round: False
      show ?thesis
      proof (cases "transfer_voters ?r")
        case Nil
        have "same_setup ?r (snd (tabulate ?r cur))"
          by (rule same_setup_tabulate)
        with base have "same_setup r (snd (tabulate ?r cur))"
          by (rule same_setup_trans)
        with False Some open_round Nil show ?thesis
          by (simp add: run_def Let_def)
      next
        case (Cons v vs)
        with False Some open_round show ?thesis
          by (simp add: run_def cast_ballot_def Let_def)
      qed
    qed
  qed
qed

section \<open>Looking a candidate up by its id\<close>

lemma apply_operations_Nil [simp]: "apply_operations [] r = r"
  by (simp add: apply_operations_def)

lemma apply_operations_Cons [simp]:
  "apply_operations (operation # ops) r = apply_operations ops (snd (apply_operation operation r))"
  by (simp add: apply_operations_def)

lemma apply_operations_append [simp]:
  "apply_operations (ops @ ops') r = apply_operations ops' (apply_operations ops r)"
  by (simp add: apply_operations_def)

lemma registry_ok_new_race: "registry_ok (new_race i p m x a)"
  by (simp add: registry_ok_def new_race_def)

lemma registry_ok_apply_operation:
  assumes "registry_ok r"
  shows "registry_ok (snd (apply_operation operation r))"
proof (cases operation)
  case (Add_candidate c)
  with assms show ?thesis
    by (auto simp: registry_ok_def add_candidate_def)
next
  case (Add_voter v)
  with assms show ?thesis
    by (auto simp: registry_ok_def add_voter_def)
next
  case Run
  have "same_setup r (snd (run r))"
    by (rule same_setup_run)
  with assms Run show ?thesis
    by (simp add: registry_ok_def same_setup_def)
qed

lemma registry_ok_apply_operations:
  "registry_ok r \<Longrightarrow> registry_ok (apply_operations ops r)"
  by (induction ops arbitrary: r) (simp_all add: registry_ok_apply_operation)

lemma candidates_apply_operation:
  "set (candidates (snd (apply_operation operation r)))
     \<subseteq> set (candidates r) \<union> {c. operation = Add_candidate c}"
proof (cases operation)
  case (Add_candidate c)
  then show ?thesis by (auto simp: add_candidate_def)
next
  case (Add_voter v)
  then show ?thesis by (auto simp: add_voter_def)
next
  case Run
  have "same_setup r (snd (run r))"
    by (rule same_setup_run)
  with Run show ?thesis
    by (simp add: same_setup_def)
qed

lemma candidates_apply_operations:
  "set (candidates (apply_operations ops r))
     \<subseteq> set (candidates r) \<union> {c. Add_candidate c \<in> set ops}"
proof (induction ops arbitrary: r)
  case Nil
  then show ?case by simp
next
  case (Cons operation ops)
  have "set (candidates (apply_operations ops (snd (apply_operation operation r))))
          \<subseteq> set (candidates (snd (apply_operation operation r))) \<union> {c. Add_candidate c \<in> set ops}"
    by (rule Cons.IH)
  with candidates_apply_operation [of operation r] show ?case
    by auto
qed

lemma find_Some_member: "find P xs = Some x \<Longrightarrow> P x \<and> x \<in> set xs"
  by (induction xs) (auto split: if_splits)

lemma find_last_registered:
  "find (\<lambda>c. cand_id c = k) (rev cs) = None \<longleftrightarrow> k \<notin> cand_id ` set cs"
  by (auto simp: find_None_iff)

text \<open>
  C10.  In the race reached from a new race by any sequence of calls, \<open>get_candidate\<close>
  never raises: it returns \<open>None\<close> for an id that no \<open>add_candidate\<close> call carried, and for
  the id of a candidate of the race it returns the candidate registered under that id,
  which is the one added last with it.
\<close>

theorem get_candidate_registered:
  fixes ops :: "operation list" and i p x a :: string and m :: int
  defines "R \<equiv> apply_operations ops (new_race i p m x a)"
  shows "((\<forall>c. Add_candidate c \<in> set ops \<longrightarrow> cand_id c \<noteq> k) \<longrightarrow> get_candidate R k = None)
         \<and> (k \<in> cand_id ` set (candidates R) \<longrightarrow>
              (\<exists>c. get_candidate R k = Some c \<and> cand_id c = k \<and> c \<in> set (candidates R)))
         \<and> get_candidate R k = find (\<lambda>c. cand_id c = k) (rev (candidates R))"
proof -
  have "registry_ok R"
    unfolding R_def by (intro registry_ok_apply_operations registry_ok_new_race)
  then have look: "get_candidate R k = find (\<lambda>c. cand_id c = k) (rev (candidates R))"
    by (simp add: registry_ok_def get_candidate_def)
  have sub: "set (candidates R) \<subseteq> {c. Add_candidate c \<in> set ops}"
    using candidates_apply_operations [of ops "new_race i p m x a"]
    by (simp add: R_def new_race_def)
  have none: "get_candidate R k = None" if "\<forall>c. Add_candidate c \<in> set ops \<longrightarrow> cand_id c \<noteq> k"
  proof -
    from that sub have "k \<notin> cand_id ` set (candidates R)" by auto
    with look show ?thesis by (simp add: find_last_registered)
  qed
  have some: "\<exists>c. get_candidate R k = Some c \<and> cand_id c = k \<and> c \<in> set (candidates R)"
    if "k \<in> cand_id ` set (candidates R)"
  proof -
    from that have "find (\<lambda>c. cand_id c = k) (rev (candidates R)) \<noteq> None"
      by (simp only: find_last_registered) simp
    then obtain c where f: "find (\<lambda>c. cand_id c = k) (rev (candidates R)) = Some c"
      by auto
    then have "cand_id c = k \<and> c \<in> set (candidates R)"
      by (auto dest: find_Some_member)
    with f look show ?thesis by simp
  qed
  from none some look show ?thesis by blast
qed

theorem get_candidate_registered_witness:
  "get_candidate (apply_operations [Add_candidate ann, Add_candidate bob, Run] empty_race) ''C'' = None
   \<and> get_candidate (apply_operations [Add_candidate ann, Add_candidate bob, Run] empty_race) ''B''
       = Some bob"
proof -
  let ?ops = "[Add_candidate ann, Add_candidate bob, Run]"
  let ?R = "apply_operations ?ops empty_race"
  note inst = get_candidate_registered [of ?ops _ "''1''" "''President''" 1 "[]" "''droop''",
      folded empty_race_def]
  have "\<forall>c. Add_candidate c \<in> set ?ops \<longrightarrow> cand_id c \<noteq> ''C''"
    by (simp add: ann_def bob_def)
  with inst [of "''C''"] have none: "get_candidate ?R ''C'' = None"
    by blast
  have cs: "candidates ?R = [ann, bob]"
    by code_simp
  have "get_candidate ?R ''B'' = find (\<lambda>c. cand_id c = ''B'') (rev (candidates ?R))"
    using inst [of "''B''"] by blast
  also have "\<dots> = Some bob"
    by (simp only: cs) (simp add: ann_def bob_def)
  finally show ?thesis
    using none by simp
qed

section \<open>The transfer value of a committed winner\<close>








section \<open>Overflow resolution: a failure that is not a tie\<close>

text \<open>
  C3.  The claim says the overflow resolution either leaves at most \<open>max_round_winners\<close>
  winners or raises the tie error, and fails in no other way.  It does fail in another
  way.  In the Hare race above, round 2 opens with Ann and Bob elected and one seat left;
  Cyd (4), Dee (3) and Eve (3) all meet the quota 3.  The tie of Dee and Eve at the cutoff
  is broken by round 1 (Dee 2, Eve 1), so Eve is dropped.  Two candidates remain for one
  seat, and the inner loop goes on with the list of the lowest winners it built before,
  which now holds Dee alone: its look-up of the last but one entry raises \<open>IndexError\<close>,
  where dropping Dee (3 votes against Cyd's 4) would leave the one winner.
\<close>

theorem overflow_index_error:
  "tabulation_view [cyd, dee, eve] hare_race_round2
     = ([''A'', ''B''], 3, [], [1, 2, 1], [4, 3, 3], Some IndexError)"
  by code_simp

section \<open>The loops that write candidate states\<close>

lemma marks_Nil [simp]: "marks k [] rd rd"
  by (simp add: marks_def)

lemma marks_won_step:
  "marks WON cs rd rd' \<Longrightarrow> marks WON (cs @ [c]) rd (set_candidate_state c (won_state rd' c) rd')"
  by (simp add: marks_def set_candidate_state_def won_state_def)

lemma marks_eliminated_step:
  "marks ELIMINATED cs rd rd' \<Longrightarrow>
     marks ELIMINATED (cs @ [c]) rd (set_candidate_state c (eliminated_state rd' c) rd')"
  by (simp add: marks_def set_candidate_state_def eliminated_state_def)

lemma marks_fields:
  assumes "marks k cs rd rd'"
  shows "round_number rd' = round_number rd" "round_candidates rd' = round_candidates rd"
    "pre_state rd' = pre_state rd" "candidate_ballots rd' = candidate_ballots rd"
    "round_status rd' = round_status rd"
    "get_candidate_ballots rd' = get_candidate_ballots rd"
    "get_candidate_voters rd' = get_candidate_voters rd"
    "get_candidate_score rd' = get_candidate_score rd"
  using assms
  by (simp_all add: marks_def fun_eq_iff get_candidate_ballots_def get_candidate_voters_def
        get_candidate_score_def)

lemma marks_post_state:
  "marks k cs rd rd' \<Longrightarrow>
     post_state rd' c =
       (if c \<in> set cs
        then Some \<lparr>state_round = round_number rd, state_candidate = c, state_kind = k\<rparr>
        else post_state rd c)"
  by (simp add: marks_def)

lemma marks_running:
  assumes "marks k cs rd rd'" and "k \<noteq> RUNNING"
  shows "get_candidates_by_state post_state RUNNING rd'
           = filter (\<lambda>c. c \<notin> set cs) (get_candidates_by_state post_state RUNNING rd)"
proof -
  have "(case post_state rd' c of None \<Rightarrow> False | Some s \<Rightarrow> state_kind s = RUNNING)
          = (c \<notin> set cs \<and> (case post_state rd c of None \<Rightarrow> False | Some s \<Rightarrow> state_kind s = RUNNING))"
    for c
    using assms by (simp add: marks_post_state)
  then show ?thesis
    using assms(1)
    by (simp add: get_candidates_by_state_def marks_fields(2) conj_commute)
qed

lemma marks_round_complete:
  "marks k cs rd rd' \<Longrightarrow>
     get_candidates_by_state post_state RUNNING (round_complete rd')
       = get_candidates_by_state post_state RUNNING rd'"
  by (simp add: get_candidates_by_state_def round_complete_def)

subsection \<open>Committing the winners\<close>

lemma commit_winner_effect:
  assumes "quota r = Inr q"
  shows "\<exists>r'. commit_winner c scores (r, cur)
                 = (None, r', set_candidate_state c (won_state cur c) cur)
              \<and> winners r' = winners r @ [c] \<and> state r' = state r \<and> rounds r' = rounds r
              \<and> transfer_voters r' = transfer_voters r @ get_candidate_voters cur c
              \<and> same_setup r r'"
proof -
  let ?cur1 = "set_candidate_state c (won_state cur c) cur"
  have frame: "winners (set_transfer_values bs rd t r0) = winners r0
             \<and> state (set_transfer_values bs rd t r0) = state r0
             \<and> rounds (set_transfer_values bs rd t r0) = rounds r0
             \<and> transfer_voters (set_transfer_values bs rd t r0) = transfer_voters r0"
    for bs rd t r0
    unfolding set_transfer_values_def
    by (induction bs arbitrary: r0) (simp_all add: set_race_voter_value_def)
  have v: "get_candidate_voters ?cur1 c = get_candidate_voters cur c"
    by (simp add: get_candidate_voters_def get_candidate_ballots_def set_candidate_state_def)
  from assms show ?thesis
    by (simp add: Let_def frame v)
qed

lemma commit_winners_effect:
  assumes "quota r = Inr q" and "marks WON seen cur0 cur"
  shows "\<exists>r' cur'. commit_winners ws scores (r, cur) = (None, r', cur')
              \<and> marks WON (seen @ ws) cur0 cur'
              \<and> winners r' = winners r @ ws \<and> state r' = state r \<and> rounds r' = rounds r
              \<and> transfer_voters r'
                   = transfer_voters r @ concat (map (get_candidate_voters cur0) ws)
              \<and> same_setup r r'"
  using assms
proof (induction ws arbitrary: r cur seen)
  case Nil
  then show ?case by simp
next
  case (Cons c cs)
  let ?cur1 = "set_candidate_state c (won_state cur c) cur"
  from commit_winner_effect [OF Cons.prems(1), of c scores cur]
  obtain r1 where one: "commit_winner c scores (r, cur) = (None, r1, ?cur1)"
    and w1: "winners r1 = winners r @ [c]" and s1: "state r1 = state r"
    and rd1: "rounds r1 = rounds r"
    and t1: "transfer_voters r1 = transfer_voters r @ get_candidate_voters cur c"
    and same1: "same_setup r r1"
    by blast
  have q1: "quota r1 = Inr q"
    using same1 Cons.prems(1) by (simp add: same_setup_quota)
  have m1: "marks WON (seen @ [c]) cur0 ?cur1"
    using Cons.prems(2) by (rule marks_won_step)
  from Cons.IH [OF q1 m1]
  obtain r' cur' where rest: "commit_winners cs scores (r1, ?cur1) = (None, r', cur')"
    and m': "marks WON ((seen @ [c]) @ cs) cur0 cur'"
    and w': "winners r' = winners r1 @ cs" and s': "state r' = state r1"
    and rd': "rounds r' = rounds r1"
    and t': "transfer_voters r' = transfer_voters r1 @ concat (map (get_candidate_voters cur0) cs)"
    and same': "same_setup r1 r'"
    by blast
  have "get_candidate_voters cur c = get_candidate_voters cur0 c"
    using Cons.prems(2) by (simp add: marks_fields)
  with one rest m' w' s' rd' t' w1 s1 rd1 t1 same_setup_trans [OF same1 same']
  show ?case by simp
qed

subsection \<open>Eliminating\<close>

lemma foldl_eliminate_marks:
  assumes "marks ELIMINATED seen cur0 cur"
  shows "marks ELIMINATED (seen @ cs) cur0
           (foldl (\<lambda>acc c. set_candidate_state c (eliminated_state acc c) acc) cur cs)"
  using assms
proof (induction cs arbitrary: cur seen)
  case Nil
  then show ?case by simp
next
  case (Cons c cs)
  have "marks ELIMINATED (seen @ [c]) cur0 (set_candidate_state c (eliminated_state cur c) cur)"
    using Cons.prems by (rule marks_eliminated_step)
  from Cons.IH [OF this] show ?case by simp
qed

lemma eliminate_remaining_marks:
  "marks ELIMINATED (get_candidates_by_state post_state RUNNING cur) cur (eliminate_remaining cur)"
  using foldl_eliminate_marks [of "[]" cur cur]
  by (simp add: eliminate_remaining_def)

lemma eliminate_remaining_none_running:
  "get_candidates_by_state post_state RUNNING (eliminate_remaining cur) = []"
  using marks_running [OF eliminate_remaining_marks, of cur]
  by (simp add: filter_empty_conv)

lemma foldl_eliminate_one_effect:
  assumes "marks ELIMINATED seen cur0 cur"
  shows "\<exists>r' cur'. foldl eliminate_one (r, cur) cs = (r', cur')
           \<and> marks ELIMINATED (seen @ cs) cur0 cur'
           \<and> winners r' = winners r \<and> state r' = state r \<and> rounds r' = rounds r
           \<and> transfer_voters r'
                = transfer_voters r @ concat (map (get_candidate_voters cur0) cs)
           \<and> same_setup r r'"
  using assms
proof (induction cs arbitrary: r cur seen)
  case Nil
  then show ?case by simp
next
  case (Cons c cs)
  let ?cur1 = "set_candidate_state c (eliminated_state cur c) cur"
  let ?r1 = "r\<lparr>transfer_voters := transfer_voters r @ get_candidate_voters ?cur1 c\<rparr>"
  have one: "eliminate_one (r, cur) c = (?r1, ?cur1)"
    by (simp add: eliminate_one_def Let_def)
  have m1: "marks ELIMINATED (seen @ [c]) cur0 ?cur1"
    using Cons.prems by (rule marks_eliminated_step)
  from Cons.IH [OF m1, of ?r1]
  obtain r' cur' where rest: "foldl eliminate_one (?r1, ?cur1) cs = (r', cur')"
    and m': "marks ELIMINATED ((seen @ [c]) @ cs) cur0 cur'"
    and w': "winners r' = winners ?r1" and s': "state r' = state ?r1"
    and rd': "rounds r' = rounds ?r1"
    and t': "transfer_voters r' = transfer_voters ?r1 @ concat (map (get_candidate_voters cur0) cs)"
    and same': "same_setup ?r1 r'"
    by blast
  have "get_candidate_voters ?cur1 c = get_candidate_voters cur0 c"
    using m1 by (simp add: marks_fields)
  moreover have "same_setup r r'"
    using same' by (simp add: same_setup_def)
  ultimately show ?case
    using one rest m' w' s' rd' t' by simp
qed

subsection \<open>The number of winners a round may add\<close>

lemma overflow_length:
  "overflow scores prevs ws m = Inr ws' \<Longrightarrow> int (length ws') \<le> m"
proof (induction scores prevs ws m rule: overflow.induct)
  case (1 scores prevs ws m)
  show ?case
  proof (cases "int (length ws) > m")
    case False
    with "1.prems" show ?thesis
      by (simp add: overflow.simps [of scores prevs ws m])
  next
    case True
    with "1.prems" "1.IH" show ?thesis
      by (simp add: overflow.simps [of scores prevs ws m]
            split: if_splits list.splits sum.splits)
  qed
qed

lemma overflow_fits: "int (length ws) \<le> m \<Longrightarrow> overflow scores prevs ws m = Inr ws"
  by (simp add: overflow.simps [of scores prevs ws m])

lemma round_winners_length:
  "round_winners r cur scores running = Inr ws \<Longrightarrow>
     int (length ws) \<le> max_winners r - int (length (winners r))"
  by (auto simp: round_winners_def Let_def dest: overflow_length split: sum.splits)

section \<open>What the tabulation does to a race\<close>

lemma valid_setup_quota: "valid_setup r \<Longrightarrow> \<exists>q. quota r = Inr q \<and> 1 \<le> q"
  using droop_get_quota_ge1 [of "int (length (voters r))" "max_winners r"]
    hare_get_quota_ge1 [of "max_winners r" "int (length (voters r))"]
  by (auto simp: valid_setup_def quota_def)

lemma same_setup_valid: "same_setup r r' \<Longrightarrow> valid_setup r \<Longrightarrow> valid_setup r'"
  by (simp add: same_setup_def valid_setup_def)

lemma finish_with_winners_effect:
  "\<exists>rd. rounds (finish_with_winners r cur) = butlast (rounds r) @ [rd]
        \<and> round_status rd = ROUND_COMPLETE
        \<and> candidate_ballots rd = candidate_ballots cur
        \<and> get_candidates_by_state post_state RUNNING rd
            = (if int (length (winners r)) = max_winners r then []
               else get_candidates_by_state post_state RUNNING cur)
        \<and> state (finish_with_winners r cur)
            = (if get_candidates_by_state post_state RUNNING rd = [] then COMPLETE else state r)
        \<and> winners (finish_with_winners r cur) = winners r
        \<and> transfer_voters (finish_with_winners r cur) = transfer_voters r
        \<and> voters (finish_with_winners r cur) = voters r
        \<and> max_winners (finish_with_winners r cur) = max_winners r
        \<and> round_number rd = round_number cur"
proof (cases "int (length (winners r)) = max_winners r")
  case True
  let ?rd = "round_complete (eliminate_remaining cur)"
  have m: "marks ELIMINATED (get_candidates_by_state post_state RUNNING cur) cur (eliminate_remaining cur)"
    by (rule eliminate_remaining_marks)
  have none: "get_candidates_by_state post_state RUNNING ?rd = []"
    using marks_round_complete [OF m] eliminate_remaining_none_running by simp
  have "candidate_ballots ?rd = candidate_ballots cur" "round_number ?rd = round_number cur"
    using m by (simp_all add: round_complete_def marks_fields)
  with True none show ?thesis
    by (simp add: finish_with_winners_def Let_def set_round_latest_def round_complete_def)
next
  case False
  have "get_candidates_by_state post_state RUNNING (round_complete cur)
          = get_candidates_by_state post_state RUNNING cur"
    by (simp add: get_candidates_by_state_def round_complete_def)
  with False show ?thesis
    by (simp add: finish_with_winners_def Let_def set_round_latest_def round_complete_def)
qed

lemma eliminate_lowest_effect:
  "\<exists>cur'. marks ELIMINATED (eliminated_candidates scores running) cur cur'
        \<and> rounds (eliminate_lowest r cur scores running)
            = butlast (rounds r) @ [round_complete cur']
        \<and> winners (eliminate_lowest r cur scores running) = winners r
        \<and> state (eliminate_lowest r cur scores running) = state r
        \<and> transfer_voters (eliminate_lowest r cur scores running)
            = transfer_voters r
              @ concat (map (get_candidate_voters cur) (eliminated_candidates scores running))
        \<and> voters (eliminate_lowest r cur scores running) = voters r
        \<and> max_winners (eliminate_lowest r cur scores running) = max_winners r"
proof -
  from foldl_eliminate_one_effect [of "[]" cur cur r "eliminated_candidates scores running"]
  obtain r' cur' where f: "foldl eliminate_one (r, cur) (eliminated_candidates scores running) = (r', cur')"
    and m: "marks ELIMINATED (eliminated_candidates scores running) cur cur'"
    and rest: "winners r' = winners r" "state r' = state r" "rounds r' = rounds r"
      "transfer_voters r'
         = transfer_voters r @ concat (map (get_candidate_voters cur) (eliminated_candidates scores running))"
      "same_setup r r'"
    by auto
  from f m rest show ?thesis
    by (auto simp: eliminate_lowest_def set_round_latest_def same_setup_def)
qed

lemma quota_winners_zero_scores:
  assumes "quota r = Inr q" and "1 \<le> q" and "\<forall>c. scores c = 0"
  shows "quota_winners r scores running cs = Inr []"
  using assms by (induction cs) simp_all

lemma eliminated_candidates_zero_scores:
  assumes "\<forall>c. scores c = 0"
  shows "eliminated_candidates scores running = running"
  using assms by (simp add: eliminated_candidates_def)

lemma eliminated_candidates_Nil [simp]: "eliminated_candidates scores [] = []"
  by (simp add: eliminated_candidates_def)

section \<open>The tabulation keeps the invariant\<close>

lemma running_post_is_pre:
  "post_state cur = pre_state cur \<Longrightarrow>
     get_candidates_by_state post_state RUNNING cur = get_candidates_by_state pre_state RUNNING cur"
  by (simp add: get_candidates_by_state_def)

lemma running_round_complete [simp]:
  "get_candidates_by_state post_state k (round_complete cur) = get_candidates_by_state post_state k cur"
  by (simp add: get_candidates_by_state_def round_complete_def)

lemma round_winners_no_running:
  assumes "int (length (winners r)) \<le> max_winners r"
  shows "round_winners r cur scores [] = Inr []"
  using assms by (simp add: round_winners_def select_winners_def overflow_fits)

lemma round_winners_zero_scores:
  assumes "valid_setup r" and "\<forall>c. scores c = 0"
    and "int (length (winners r)) \<le> max_winners r"
  shows "round_winners r cur scores running
           = Inr (if int (length running) \<le> max_winners r - int (length (winners r))
                  then running else [])"
proof -
  from valid_setup_quota [OF assms(1)] obtain q where q: "quota r = Inr q" "1 \<le> q"
    by blast
  show ?thesis
    using assms(3) quota_winners_zero_scores [OF q assms(2)]
    by (simp add: round_winners_def select_winners_def overflow_fits)
qed

lemma filter_not_in_self [simp]: "filter (\<lambda>c. c \<notin> set xs) xs = []"
  by (simp add: filter_empty_conv)

lemma set_round_latest_last:
  "rounds r \<noteq> [] \<Longrightarrow> set_round_latest (last (rounds r)) r = r"
  by (simp add: set_round_latest_def)

lemma race_inv_tabulate_no_voters:
  assumes vs: "valid_setup r0" and inv: "race_inv r0" and rs: "rounds r0 \<noteq> []"
    and inc: "round_status (last (rounds r0)) = ROUND_INCOMPLETE"
    and nov: "voters r0 = []"
  shows "race_inv (snd (tabulate r0 (last (rounds r0))))"
proof -
  let ?cur0 = "last (rounds r0)"
  let ?scores = "get_candidate_score ?cur0"
  let ?running = "get_candidates_by_state pre_state RUNNING ?cur0"
  let ?rA = "(if length ?running = 0 then r0\<lparr>state := COMPLETE\<rparr> else r0)\<lparr>state := COMPLETE\<rparr>"
  let ?curA = "round_complete ?cur0"
  let ?m = "max_winners r0 - int (length (winners r0))"
  let ?ws = "if int (length ?running) \<le> ?m then ?running else []"
  from inv have fits: "int (length (winners r0)) \<le> max_winners r0"
    by (simp add: race_inv_def)
  from inv rs inc have pp: "post_state ?cur0 = pre_state ?cur0"
    by (simp add: race_inv_def)
  from inv nov have tv: "transfer_voters r0 = []"
    and empty: "\<And>rd k. rd \<in> set (rounds r0) \<Longrightarrow> candidate_ballots rd k = []"
    by (simp_all add: race_inv_def)
  from rs have "?cur0 \<in> set (rounds r0)" by simp
  then have e0: "candidate_ballots ?cur0 k = []" for k
    by (rule empty)
  then have zero: "\<forall>c. ?scores c = 0"
    by (simp add: get_candidate_score_def get_candidate_ballots_def)
  have nob: "get_candidate_voters ?curA c = []" for c
    by (simp add: get_candidate_voters_def get_candidate_ballots_def round_complete_def e0)
  have start: "tabulation_start r0 ?cur0 ?running = (?rA, ?curA)"
    using nov by (simp add: tabulation_start_def Let_def)
  have sA: "same_setup r0 ?rA"
    by (simp add: same_setup_def)
  then have vA: "valid_setup ?rA"
    using vs by (rule same_setup_valid)
  have fA: "winners ?rA = winners r0" "max_winners ?rA = max_winners r0" "state ?rA = COMPLETE"
    "rounds ?rA = rounds r0" "transfer_voters ?rA = []" "voters ?rA = []"
    using tv nov by simp_all
  have rw: "round_winners ?rA ?curA ?scores ?running = Inr ?ws"
    using round_winners_zero_scores [OF vA zero, of ?curA ?running] fits fA(1,2)
    by simp
  from valid_setup_quota [OF vA] obtain q where q: "quota ?rA = Inr q"
    by blast
  have mN: "marks WON [] ?curA ?curA"
    by simp
  from commit_winners_effect [OF q mN, where ws = ?ws and scores = ?scores]
  obtain r2 cur2 where com: "commit_winners ?ws ?scores (?rA, ?curA) = (None, r2, cur2)"
    and m2: "marks WON ?ws ?curA cur2"
    and f2: "winners r2 = winners ?rA @ ?ws" "state r2 = state ?rA" "rounds r2 = rounds ?rA"
      "transfer_voters r2 = transfer_voters ?rA @ concat (map (get_candidate_voters ?curA) ?ws)"
      "same_setup ?rA r2"
    by auto
  have tv2: "transfer_voters r2 = []"
    using f2(4) fA(5) by (simp add: nob)
  have v2: "voters r2 = []" "max_winners r2 = max_winners r0"
    using f2(5) fA by (simp_all add: same_setup_def)
  have b2: "candidate_ballots cur2 k = []" for k
    using m2 e0 by (simp add: marks_fields round_complete_def)
  have run2: "get_candidates_by_state post_state RUNNING cur2 = filter (\<lambda>c. c \<notin> set ?ws) ?running"
    using marks_running [OF m2] running_post_is_pre [OF pp] by simp
  have res: "tabulate r0 ?cur0
               = (None, if ?ws \<noteq> [] then finish_with_winners r2 cur2
                        else eliminate_lowest r2 cur2 ?scores ?running)"
    using start rw com by (simp add: tabulate_def Let_def)
  have butlast_empty: "candidate_ballots rd k = []" if "rd \<in> set (butlast (rounds r0))" for rd k
    using that empty by (auto dest: in_set_butlastD)
  show ?thesis
  proof (cases "?ws = []")
    case False
    then have ws: "?ws = ?running" and le: "int (length ?running) \<le> ?m"
      by (auto split: if_splits)
    from finish_with_winners_effect [where r = r2 and cur = cur2]
    obtain rd where fin: "rounds (finish_with_winners r2 cur2) = butlast (rounds r2) @ [rd]"
      "round_status rd = ROUND_COMPLETE" "candidate_ballots rd = candidate_ballots cur2"
      "get_candidates_by_state post_state RUNNING rd
         = (if int (length (winners r2)) = max_winners r2 then []
            else get_candidates_by_state post_state RUNNING cur2)"
      "winners (finish_with_winners r2 cur2) = winners r2"
      "transfer_voters (finish_with_winners r2 cur2) = transfer_voters r2"
      "voters (finish_with_winners r2 cur2) = voters r2"
      "max_winners (finish_with_winners r2 cur2) = max_winners r2"
      by blast
    have none: "get_candidates_by_state post_state RUNNING rd = []"
      using fin(4) run2 ws by simp
    have "race_inv (finish_with_winners r2 cur2)"
      unfolding race_inv_def none_running_def
      using fin none le ws f2(1,3) fA tv2 v2 b2 butlast_empty
      by auto
    with res False show ?thesis by simp
  next
    case True
    with com have id2: "r2 = ?rA" "cur2 = ?curA"
      by simp_all
    have elim: "eliminated_candidates ?scores ?running = ?running"
      using zero by (rule eliminated_candidates_zero_scores)
    from eliminate_lowest_effect [of ?scores ?running ?curA ?rA]
    obtain cur' where el: "marks ELIMINATED ?running ?curA cur'"
      "rounds (eliminate_lowest ?rA ?curA ?scores ?running) = butlast (rounds ?rA) @ [round_complete cur']"
      "winners (eliminate_lowest ?rA ?curA ?scores ?running) = winners ?rA"
      "state (eliminate_lowest ?rA ?curA ?scores ?running) = state ?rA"
      "transfer_voters (eliminate_lowest ?rA ?curA ?scores ?running)
         = transfer_voters ?rA @ concat (map (get_candidate_voters ?curA) ?running)"
      "voters (eliminate_lowest ?rA ?curA ?scores ?running) = voters ?rA"
      "max_winners (eliminate_lowest ?rA ?curA ?scores ?running) = max_winners ?rA"
      unfolding elim by blast
    have none: "get_candidates_by_state post_state RUNNING (round_complete cur') = []"
      using marks_running [OF el(1)] running_post_is_pre [OF pp] by simp
    have b': "candidate_ballots (round_complete cur') k = []" for k
      using el(1) e0 by (simp add: marks_fields round_complete_def)
    have st': "round_status (round_complete cur') = ROUND_COMPLETE"
      by (simp add: round_complete_def)
    have "race_inv (eliminate_lowest ?rA ?curA ?scores ?running)"
      unfolding race_inv_def none_running_def
      using el(2-7) none b' st' fits fA butlast_empty nob
      by auto
    with res True id2 show ?thesis by simp
  qed
qed

lemma race_inv_tabulate_voters:
  assumes vs: "valid_setup r0" and inv: "race_inv r0" and rs: "rounds r0 \<noteq> []"
    and inc: "round_status (last (rounds r0)) = ROUND_INCOMPLETE"
    and some: "voters r0 \<noteq> []" and st: "state r0 \<noteq> COMPLETE"
  shows "race_inv (snd (tabulate r0 (last (rounds r0))))"
proof -
  let ?cur0 = "last (rounds r0)"
  let ?scores = "get_candidate_score ?cur0"
  let ?running = "get_candidates_by_state pre_state RUNNING ?cur0"
  let ?r1 = "if length ?running = 0 then r0\<lparr>state := COMPLETE\<rparr> else r0"
  from inv have fits: "int (length (winners r0)) \<le> max_winners r0"
    by (simp add: race_inv_def)
  from inv rs inc have pp: "post_state ?cur0 = pre_state ?cur0"
    by (simp add: race_inv_def)
  have start: "tabulation_start r0 ?cur0 ?running = (?r1, ?cur0)"
    using some by (simp add: tabulation_start_def Let_def)
  have s1: "same_setup r0 ?r1"
    by (simp add: same_setup_def)
  then have v1: "valid_setup ?r1"
    using vs by (rule same_setup_valid)
  have f1: "winners ?r1 = winners r0" "max_winners ?r1 = max_winners r0"
    "rounds ?r1 = rounds r0" "voters ?r1 = voters r0"
    "state ?r1 = (if ?running = [] then COMPLETE else state r0)"
    by simp_all
  have empty_rw: "round_winners ?r1 ?cur0 ?scores ?running = Inr []" if "?running = []"
    using that round_winners_no_running [of ?r1 ?cur0 ?scores] fits f1(1,2) by simp
  show ?thesis
  proof (cases "round_winners ?r1 ?cur0 ?scores ?running")
    case (Inl e)
    with empty_rw have "?running \<noteq> []" by auto
    then have "?r1 = r0" by simp
    with start Inl have "snd (tabulate r0 ?cur0) = set_round_latest ?cur0 r0"
      by (simp add: tabulate_def Let_def)
    with rs inv show ?thesis
      by (simp add: set_round_latest_last)
  next
    case (Inr ws)
    from round_winners_length [OF Inr] f1(1,2)
    have le: "int (length ws) \<le> max_winners r0 - int (length (winners r0))"
      by simp
    from valid_setup_quota [OF v1] obtain q where q: "quota ?r1 = Inr q"
      by blast
    have mN: "marks WON [] ?cur0 ?cur0"
      by simp
    from commit_winners_effect [OF q mN, where ws = ws and scores = ?scores]
    obtain r2 cur2 where com: "commit_winners ws ?scores (?r1, ?cur0) = (None, r2, cur2)"
      and m2: "marks WON ws ?cur0 cur2"
      and f2: "winners r2 = winners ?r1 @ ws" "state r2 = state ?r1" "rounds r2 = rounds ?r1"
        "same_setup ?r1 r2"
      by auto
    have v2: "voters r2 = voters r0" "max_winners r2 = max_winners r0"
      using f2(4) f1 by (simp_all add: same_setup_def)
    have res: "tabulate r0 ?cur0
                 = (None, if ws \<noteq> [] then finish_with_winners r2 cur2
                          else eliminate_lowest r2 cur2 ?scores ?running)"
      using start Inr com by (simp add: tabulate_def Let_def)
    show ?thesis
    proof (cases "ws = []")
      case False
      with empty_rw Inr have "?running \<noteq> []" by auto
      with f2(2) st have st2: "state r2 \<noteq> COMPLETE" by simp
      from finish_with_winners_effect [where r = r2 and cur = cur2]
      obtain rd where fin: "rounds (finish_with_winners r2 cur2) = butlast (rounds r2) @ [rd]"
        "round_status rd = ROUND_COMPLETE"
        "state (finish_with_winners r2 cur2)
           = (if get_candidates_by_state post_state RUNNING rd = [] then COMPLETE else state r2)"
        "winners (finish_with_winners r2 cur2) = winners r2"
        "voters (finish_with_winners r2 cur2) = voters r2"
        "max_winners (finish_with_winners r2 cur2) = max_winners r2"
        by blast
      have "race_inv (finish_with_winners r2 cur2)"
        unfolding race_inv_def none_running_def
        using fin st2 le f2(1) f1(1) v2 some
        by auto
      with res False show ?thesis by simp
    next
      case True
      with start Inr have res0: "snd (tabulate r0 ?cur0)
                                   = eliminate_lowest ?r1 ?cur0 ?scores ?running"
        by (simp add: tabulate_def Let_def)
      from eliminate_lowest_effect
        [where scores = ?scores and running = ?running and cur = ?cur0 and r = ?r1]
      obtain cur' where el: "marks ELIMINATED (eliminated_candidates ?scores ?running) ?cur0 cur'"
        "rounds (eliminate_lowest ?r1 ?cur0 ?scores ?running)
           = butlast (rounds ?r1) @ [round_complete cur']"
        "winners (eliminate_lowest ?r1 ?cur0 ?scores ?running) = winners ?r1"
        "state (eliminate_lowest ?r1 ?cur0 ?scores ?running) = state ?r1"
        "voters (eliminate_lowest ?r1 ?cur0 ?scores ?running) = voters ?r1"
        "max_winners (eliminate_lowest ?r1 ?cur0 ?scores ?running) = max_winners ?r1"
        by blast
      have st': "round_status (round_complete cur') = ROUND_COMPLETE"
        by (simp add: round_complete_def)
      have none: "get_candidates_by_state post_state RUNNING (round_complete cur') = []"
        if "?running = []"
        using marks_running [OF el(1)] running_post_is_pre [OF pp] that by simp
      have "race_inv (eliminate_lowest ?r1 ?cur0 ?scores ?running)"
        unfolding race_inv_def none_running_def
        using el(2-6) none st' fits f1 some st
        by auto
      with res0 show ?thesis by simp
    qed
  qed
qed

lemma race_inv_tabulate:
  assumes "valid_setup r0" and "race_inv r0" and "rounds r0 \<noteq> []"
    and "round_status (last (rounds r0)) = ROUND_INCOMPLETE" and "state r0 \<noteq> COMPLETE"
  shows "race_inv (snd (tabulate r0 (last (rounds r0))))"
  using assms race_inv_tabulate_no_voters race_inv_tabulate_voters
  by (cases "voters r0 = []") blast+

section \<open>Every call keeps the invariant\<close>

lemma foldl_add_candidate_fields:
  "post_state rd = pre_state rd \<Longrightarrow>
     post_state (foldl (\<lambda>nr c. round_add_candidate c (st c) nr) rd cs)
       = pre_state (foldl (\<lambda>nr c. round_add_candidate c (st c) nr) rd cs)
     \<and> candidate_ballots (foldl (\<lambda>nr c. round_add_candidate c (st c) nr) rd cs)
         = candidate_ballots rd
     \<and> round_status (foldl (\<lambda>nr c. round_add_candidate c (st c) nr) rd cs) = round_status rd
     \<and> round_number (foldl (\<lambda>nr c. round_add_candidate c (st c) nr) rd cs) = round_number rd"
  by (induction cs arbitrary: rd) (simp_all add: round_add_candidate_def)

lemma first_round_fields:
  "post_state (first_round r) = pre_state (first_round r)"
  "candidate_ballots (first_round r) = (\<lambda>_. [])"
  "round_status (first_round r) = ROUND_INCOMPLETE"
  "round_number (first_round r) = 1"
  using foldl_add_candidate_fields
    [of "empty_round 1" "\<lambda>c. \<lparr>state_round = 1, state_candidate = c, state_kind = RUNNING\<rparr>"
        "candidates r"]
  by (simp_all add: first_round_def empty_round_def)

lemma add_candidates_from_fields:
  "add_candidates_from cur cs nr0 = Inr nr \<Longrightarrow> post_state nr0 = pre_state nr0 \<Longrightarrow>
     post_state nr = pre_state nr \<and> candidate_ballots nr = candidate_ballots nr0
     \<and> round_status nr = round_status nr0 \<and> round_number nr = round_number nr0"
proof (induction cs arbitrary: nr0)
  case Nil
  then show ?case by simp
next
  case (Cons c cs)
  from Cons.prems(1) obtain s where s: "post_state cur c = Some s"
    and rest: "add_candidates_from cur cs (round_add_candidate c s nr0) = Inr nr"
    by (auto split: option.splits)
  have "post_state (round_add_candidate c s nr0) = pre_state (round_add_candidate c s nr0)"
    using Cons.prems(2) by (simp add: round_add_candidate_def)
  from Cons.IH [OF rest this] show ?case
    by (simp add: round_add_candidate_def)
qed

lemma add_ballots_fields:
  "post_state (add_ballots bs nr) = post_state nr \<and> pre_state (add_ballots bs nr) = pre_state nr
   \<and> round_status (add_ballots bs nr) = round_status nr
   \<and> round_number (add_ballots bs nr) = round_number nr
   \<and> round_candidates (add_ballots bs nr) = round_candidates nr"
  unfolding add_ballots_def
  by (induction bs arbitrary: nr) (simp_all add: round_add_ballot_def)

lemma add_ballots_Nil [simp]: "add_ballots [] nr = nr"
  by (simp add: add_ballots_def)

lemma create_new_round_fields:
  assumes "create_new_round r cur = Inr nr"
  shows "post_state nr = pre_state nr" "round_status nr = ROUND_INCOMPLETE"
    "round_number nr = round_number cur + 1"
    "(\<forall>k. candidate_ballots cur k = []) \<Longrightarrow> candidate_ballots nr k = []"
proof -
  let ?e = "empty_round (round_number cur + 1)"
  from assms obtain nr1 where a: "add_candidates_from cur (candidates r) ?e = Inr nr1"
    and nr: "nr = add_ballots (get_exhausted_ballots cur)
                    (add_ballots (concat (map (get_candidate_ballots cur) (unchanged_candidates r cur))) nr1)"
    by (auto simp: create_new_round_def split: sum.splits)
  have "post_state ?e = pre_state ?e"
    by (simp add: empty_round_def)
  from add_candidates_from_fields [OF a this]
  have f1: "post_state nr1 = pre_state nr1" "candidate_ballots nr1 = (\<lambda>_. [])"
    "round_status nr1 = ROUND_INCOMPLETE" "round_number nr1 = round_number cur + 1"
    by (simp_all add: empty_round_def)
  from f1 nr show "post_state nr = pre_state nr" "round_status nr = ROUND_INCOMPLETE"
    "round_number nr = round_number cur + 1"
    by (simp_all add: add_ballots_fields)
  show "candidate_ballots nr k = []" if none: "\<forall>k. candidate_ballots cur k = []"
  proof -
    have "concat (map (get_candidate_ballots cur) (unchanged_candidates r cur)) = []"
      using none by (simp add: get_candidate_ballots_def)
    with none nr f1(2) show ?thesis
      by (simp add: get_exhausted_ballots_def)
  qed
qed

lemma race_inv_run:
  assumes vs: "valid_setup r0" and inv: "race_inv r0"
  shows "race_inv (snd (run r0))"
proof (cases "state r0 = COMPLETE")
  case True
  with inv show ?thesis by (simp add: run_def)
next
  case False
  let ?r = "r0\<lparr>state := TABULATING\<rparr>"
  have vr: "valid_setup ?r"
    using vs by (simp add: valid_setup_def)
  have ir: "race_inv ?r"
    using inv by (simp add: race_inv_def none_running_def)
  show ?thesis
  proof (cases "rounds r0 = []")
    case True
    then have "snd (run r0) = ?r\<lparr>rounds := [first_round ?r], transfer_voters := voters r0\<rparr>"
      using False by (simp add: run_def get_round_latest_def Let_def)
    moreover have "race_inv (?r\<lparr>rounds := [first_round ?r], transfer_voters := voters r0\<rparr>)"
      using inv by (simp add: race_inv_def first_round_fields)
    ultimately show ?thesis by simp
  next
    case rs: False
    let ?cur = "last (rounds r0)"
    have latest: "get_round_latest ?r = Some ?cur"
      using rs by (simp add: get_round_latest_def)
    show ?thesis
    proof (cases "round_status ?cur = ROUND_COMPLETE")
      case True
      show ?thesis
      proof (cases "create_new_round ?r ?cur")
        case (Inl e)
        with False latest True have "snd (run r0) = ?r"
          by (simp add: run_def Let_def)
        with ir show ?thesis by simp
      next
        case (Inr nr)
        with False latest True have res: "snd (run r0) = ?r\<lparr>rounds := rounds r0 @ [nr]\<rparr>"
          by (simp add: run_def Let_def)
        have "candidate_ballots nr k = []" if "voters r0 = []" for k
        proof -
          from inv that rs have "\<forall>k. candidate_ballots ?cur k = []"
            by (simp add: race_inv_def)
          then show ?thesis
            by (rule create_new_round_fields(4) [OF Inr])
        qed
        then have "race_inv (?r\<lparr>rounds := rounds r0 @ [nr]\<rparr>)"
          using inv create_new_round_fields(1,2) [OF Inr]
          by (simp add: race_inv_def)
        with res show ?thesis by simp
      qed
    next
      case open_round: False
      then have inc: "round_status ?cur = ROUND_INCOMPLETE"
        by (cases "round_status ?cur") simp_all
      show ?thesis
      proof (cases "transfer_voters r0")
        case Nil
        with False latest open_round have "snd (run r0) = snd (tabulate ?r ?cur)"
          by (simp add: run_def Let_def)
        moreover have "race_inv (snd (tabulate ?r (last (rounds ?r))))"
          using vr ir rs inc by (intro race_inv_tabulate) simp_all
        ultimately show ?thesis by simp
      next
        case (Cons v vs)
        with False latest open_round
        have res: "snd (run r0) = cast_ballot ?r ?cur v vs"
          by (simp add: run_def Let_def)
        from inv Cons have some: "voters r0 \<noteq> []"
          by (auto simp: race_inv_def)
        from inv rs inc have pp: "post_state ?cur = pre_state ?cur"
          by (simp add: race_inv_def)
        have "race_inv (cast_ballot ?r ?cur v vs)"
          using inv some pp
          by (simp add: race_inv_def cast_ballot_def Let_def set_round_latest_def
                round_add_ballot_def)
        with res show ?thesis by simp
      qed
    qed
  qed
qed

lemma valid_setup_apply_operation:
  "valid_setup r \<Longrightarrow> valid_setup (snd (apply_operation operation r))"
proof (cases operation)
  case (Add_candidate c)
  then show "valid_setup r \<Longrightarrow> ?thesis"
    by (simp add: valid_setup_def add_candidate_def)
next
  case (Add_voter v)
  then show "valid_setup r \<Longrightarrow> ?thesis"
    by (simp add: valid_setup_def add_voter_def)
next
  case Run
  then show "valid_setup r \<Longrightarrow> ?thesis"
    using same_setup_run [of r] by (simp add: same_setup_valid)
qed

lemma race_inv_apply_operation:
  assumes "valid_setup r" and "race_inv r"
  shows "race_inv (snd (apply_operation operation r))"
proof (cases operation)
  case (Add_candidate c)
  with assms(2) show ?thesis
    by (auto simp: add_candidate_def race_inv_def none_running_def)
next
  case (Add_voter v)
  with assms(2) show ?thesis
    by (auto simp: add_voter_def race_inv_def none_running_def)
next
  case Run
  with assms show ?thesis
    by (simp add: race_inv_run)
qed

lemma race_inv_apply_operations:
  "valid_setup r \<Longrightarrow> race_inv r \<Longrightarrow>
     valid_setup (apply_operations ops r) \<and> race_inv (apply_operations ops r)"
proof (induction ops arbitrary: r)
  case Nil
  then show ?case by simp
next
  case (Cons operation ops)
  then show ?case
    by (simp add: valid_setup_apply_operation race_inv_apply_operation)
qed

lemma race_inv_new_race:
  "1 \<le> m \<Longrightarrow> race_inv (new_race i p m x a)"
  by (simp add: race_inv_def new_race_def)

section \<open>The winners fit the seats\<close>

text \<open>
  C1.  For every race set up with at least one seat and the Droop or the Hare quota, after
  any sequence of \<open>add_candidate\<close>, \<open>add_voter\<close> and \<open>run\<close> calls (those that raise
  included) the winners are at most \<open>max_winners\<close>; and when the race is COMPLETE, the
  winners are exactly \<open>max_winners\<close> unless the running candidates were used up first: the
  latest round exists and leaves no candidate running.
\<close>

theorem winners_within_seats:
  fixes ops :: "operation list" and i p x a :: string and m :: int
  assumes "1 \<le> m" and "a = ''droop'' \<or> a = ''hare''"
  defines "R \<equiv> apply_operations ops (new_race i p m x a)"
  shows "max_winners R = m
         \<and> int (length (winners R)) \<le> max_winners R
         \<and> (state R = COMPLETE \<longrightarrow>
               int (length (winners R)) = max_winners R
               \<or> (rounds R \<noteq> []
                   \<and> get_candidates_by_state post_state RUNNING (last (rounds R)) = []))"
proof -
  have v0: "valid_setup (new_race i p m x a)"
    using assms(1,2) by (auto simp: valid_setup_def new_race_def)
  have i0: "race_inv (new_race i p m x a)"
    using assms(1) by (rule race_inv_new_race)
  from race_inv_apply_operations [OF v0 i0, of ops]
  have inv: "race_inv R"
    by (simp add: R_def)
  have "max_winners R = m"
    unfolding R_def
  proof (induction ops rule: rev_induct)
    case Nil
    then show ?case by (simp add: new_race_def)
  next
    case (snoc operation ops)
    let ?r = "apply_operations ops (new_race i p m x a)"
    have "max_winners (snd (apply_operation operation ?r)) = max_winners ?r"
    proof (cases operation)
      case (Add_candidate c)
      then show ?thesis by (simp add: add_candidate_def)
    next
      case (Add_voter v)
      then show ?thesis by (simp add: add_voter_def)
    next
      case Run
      then show ?thesis
        using same_setup_run [of ?r] by (simp add: same_setup_def)
    qed
    with snoc show ?case by simp
  qed
  with inv show ?thesis
    by (simp add: race_inv_def none_running_def)
qed

theorem winners_within_seats_witness:
  "state (apply_operations (majority_operations @ [Run]) empty_race) = COMPLETE
   \<and> length (winners (apply_operations (majority_operations @ [Run]) empty_race)) = 1
   \<and> max_winners (apply_operations (majority_operations @ [Run]) empty_race) = 1"
proof -
  let ?R = "apply_operations (majority_operations @ [Run]) empty_race"
  have st: "state ?R = COMPLETE"
    by code_simp
  have won: "winners ?R \<noteq> []"
    by code_simp
  from winners_within_seats [of 1 "''droop''" "majority_operations @ [Run]" "''1''" "''President''" "[]"]
  have "max_winners ?R = 1" and "int (length (winners ?R)) \<le> max_winners ?R"
    by (simp_all add: empty_race_def)
  with won st show ?thesis
    by (cases "winners ?R") simp_all
qed
section \<open>A race without voters\<close>

lemma foldl_add_candidate_states:
  "round_candidates (foldl (\<lambda>nr c. round_add_candidate c (st c) nr) rd cs)
     = round_candidates rd @ cs
   \<and> (\<forall>c. pre_state (foldl (\<lambda>nr c. round_add_candidate c (st c) nr) rd cs) c
           = (if c \<in> set cs then Some (st c) else pre_state rd c))"
  by (induction cs arbitrary: rd) (simp_all add: round_add_candidate_def)

lemma first_round_running:
  "get_candidates_by_state pre_state RUNNING (first_round r) = candidates r"
  using foldl_add_candidate_states
    [of "\<lambda>c. \<lparr>state_round = 1, state_candidate = c, state_kind = RUNNING\<rparr>"
        "empty_round 1" "candidates r"]
  by (simp add: first_round_def get_candidates_by_state_def empty_round_def filter_id_conv)

lemma tabulate_no_voters_result:
  assumes vs: "valid_setup r0" and fits: "int (length (winners r0)) \<le> max_winners r0"
    and rs: "rounds r0 \<noteq> []" and nov: "voters r0 = []"
    and e0: "\<forall>k. candidate_ballots (last (rounds r0)) k = []"
  defines "running \<equiv> get_candidates_by_state pre_state RUNNING (last (rounds r0))"
  defines "ws \<equiv> (if int (length running) \<le> max_winners r0 - int (length (winners r0))
                   then running else [])"
  shows "fst (tabulate r0 (last (rounds r0))) = None
         \<and> state (snd (tabulate r0 (last (rounds r0)))) = COMPLETE
         \<and> winners (snd (tabulate r0 (last (rounds r0)))) = winners r0 @ ws
         \<and> (\<exists>rd. rounds (snd (tabulate r0 (last (rounds r0)))) = butlast (rounds r0) @ [rd]
                \<and> round_status rd = ROUND_COMPLETE
                \<and> round_number rd = round_number (last (rounds r0)))"
proof -
  let ?cur0 = "last (rounds r0)"
  let ?scores = "get_candidate_score ?cur0"
  let ?rA = "(if length running = 0 then r0\<lparr>state := COMPLETE\<rparr> else r0)\<lparr>state := COMPLETE\<rparr>"
  let ?curA = "round_complete ?cur0"
  from e0 have zero: "\<forall>c. ?scores c = 0"
    by (simp add: get_candidate_score_def get_candidate_ballots_def)
  have start: "tabulation_start r0 ?cur0 running = (?rA, ?curA)"
    using nov by (simp add: tabulation_start_def Let_def)
  have sA: "same_setup r0 ?rA"
    by (simp add: same_setup_def)
  then have vA: "valid_setup ?rA"
    using vs by (rule same_setup_valid)
  have fA: "winners ?rA = winners r0" "max_winners ?rA = max_winners r0" "state ?rA = COMPLETE"
    "rounds ?rA = rounds r0"
    by simp_all
  have rw: "round_winners ?rA ?curA ?scores running = Inr ws"
    using round_winners_zero_scores [OF vA zero, of ?curA running] fits fA(1,2)
    by (simp add: ws_def)
  from valid_setup_quota [OF vA] obtain q where q: "quota ?rA = Inr q"
    by blast
  have mN: "marks WON [] ?curA ?curA"
    by simp
  from commit_winners_effect [OF q mN, where ws = ws and scores = ?scores]
  obtain r2 cur2 where com: "commit_winners ws ?scores (?rA, ?curA) = (None, r2, cur2)"
    and m2: "marks WON ws ?curA cur2"
    and f2: "winners r2 = winners ?rA @ ws" "state r2 = state ?rA" "rounds r2 = rounds ?rA"
    by auto
  have res: "tabulate r0 ?cur0
               = (None, if ws \<noteq> [] then finish_with_winners r2 cur2
                        else eliminate_lowest r2 cur2 ?scores running)"
    using start rw com by (simp add: tabulate_def Let_def running_def)
  have n2: "round_number cur2 = round_number ?cur0" "round_status cur2 = ROUND_COMPLETE"
    using m2 by (simp_all add: marks_fields round_complete_def)
  show ?thesis
  proof (cases "ws = []")
    case False
    from finish_with_winners_effect [where r = r2 and cur = cur2]
    obtain rd where fin: "rounds (finish_with_winners r2 cur2) = butlast (rounds r2) @ [rd]"
      "round_status rd = ROUND_COMPLETE"
      "state (finish_with_winners r2 cur2)
         = (if get_candidates_by_state post_state RUNNING rd = [] then COMPLETE else state r2)"
      "winners (finish_with_winners r2 cur2) = winners r2"
      "round_number rd = round_number cur2"
      by blast
    with res False f2 fA n2 show ?thesis
      by auto
  next
    case True
    from eliminate_lowest_effect
      [where scores = ?scores and running = running and cur = cur2 and r = r2]
    obtain cur' where el: "marks ELIMINATED (eliminated_candidates ?scores running) cur2 cur'"
      "rounds (eliminate_lowest r2 cur2 ?scores running) = butlast (rounds r2) @ [round_complete cur']"
      "winners (eliminate_lowest r2 cur2 ?scores running) = winners r2"
      "state (eliminate_lowest r2 cur2 ?scores running) = state r2"
      by blast
    have "round_number (round_complete cur') = round_number ?cur0"
      "round_status (round_complete cur') = ROUND_COMPLETE"
      using el(1) n2 by (simp_all add: marks_fields round_complete_def)
    with res True el(2-4) f2 fA show ?thesis
      by auto
  qed
qed

text \<open>
  C4, as stated, fails.  The claim says a race without voters ends with no winners,
  regardless of the number of candidates.  With Ann as the only candidate of a one-seat
  race and no voter, the second call of \<open>run\<close> completes round 1 and the race, and Ann is
  its winner: the check for an empty voter list does not return, and one running candidate
  for one seat is elected without a quota.
\<close>

theorem no_voters_counterexample:
  "voters unopposed_race = [] \<and> state unopposed_race = COMPLETE
   \<and> length (rounds unopposed_race) = 1 \<and> winners unopposed_race = [ann]"
  by code_simp

text \<open>
  C4, amended.  For every race with an empty voter list (set up with at least one seat and
  the Droop or the Hare quota, and not yet run), the first call of \<open>run\<close> creates round 1
  and the second tabulates it: round 1 is completed and the race state is COMPLETE in
  round 1.  The race ends with no winners when it has more candidates than seats; when
  the candidates are at most \<open>max_winners\<close> they are all elected.
\<close>

theorem no_voters_completes_in_round_one:
  assumes "valid_setup r0" and "state r0 = ADDING" and "rounds r0 = []" and "winners r0 = []"
    and "voters r0 = []"
  defines "r2 \<equiv> snd (run (snd (run r0)))"
  shows "fst (run r0) = None \<and> fst (run (snd (run r0))) = None
         \<and> state r2 = COMPLETE
         \<and> (\<exists>rd. rounds r2 = [rd] \<and> round_number rd = 1 \<and> round_status rd = ROUND_COMPLETE)
         \<and> winners r2 = (if int (length (candidates r0)) \<le> max_winners r0
                          then candidates r0 else [])"
proof -
  define t where "t = r0\<lparr>state := TABULATING\<rparr>"
  define r1 where "r1 = t\<lparr>rounds := [first_round t], transfer_voters := voters r0\<rparr>"
  have one: "run r0 = (None, r1)"
    using assms(2,3) by (simp add: run_def get_round_latest_def Let_def r1_def t_def)
  have cands: "first_round t = first_round r0"
    by (simp add: first_round_def t_def)
  have f1: "state r1 = TABULATING" "rounds r1 = [first_round r0]" "transfer_voters r1 = []"
    "winners r1 = []" "voters r1 = []" "max_winners r1 = max_winners r0"
    using assms(4,5) by (simp_all add: r1_def cands) (simp_all add: t_def)
  have same: "r1\<lparr>state := TABULATING\<rparr> = r1"
    by (simp add: r1_def t_def)
  have v1: "valid_setup r1"
    using assms(1) by (simp add: valid_setup_def r1_def t_def)
  have two: "run r1 = tabulate r1 (last (rounds r1))"
    using f1(1-3) by (simp add: run_def get_round_latest_def Let_def first_round_fields same)
  have fits: "int (length (winners r1)) \<le> max_winners r1"
    using assms(1) f1 by (simp add: valid_setup_def)
  have e0: "\<forall>k. candidate_ballots (last (rounds r1)) k = []"
    using f1 by (simp add: first_round_fields)
  have rs: "rounds r1 \<noteq> []"
    using f1 by simp
  have running: "get_candidates_by_state pre_state RUNNING (last (rounds r1)) = candidates r0"
    using f1(2) by (simp add: first_round_running)
  have number: "round_number (last (rounds r1)) = 1"
    using f1(2) by (simp add: first_round_fields)
  from tabulate_no_voters_result [OF v1 fits rs f1(5) e0]
  have res: "fst (run r1) = None" "state (snd (run r1)) = COMPLETE"
    "winners (snd (run r1))
       = (if int (length (candidates r0)) \<le> max_winners r0 then candidates r0 else [])"
    "\<exists>rd. rounds (snd (run r1)) = [rd] \<and> round_status rd = ROUND_COMPLETE \<and> round_number rd = 1"
    unfolding two running number
    by (simp_all add: f1)
  from res(4) obtain rd where "rounds (snd (run r1)) = [rd]" "round_number rd = 1"
    "round_status rd = ROUND_COMPLETE"
    by blast
  with res(1-3) show ?thesis
    unfolding r2_def one by simp
qed

theorem no_voters_completes_in_round_one_witness:
  "fst (run (apply_operations [Add_candidate ann, Add_candidate bob] empty_race)) = None
   \<and> state (snd (run (snd (run (apply_operations [Add_candidate ann, Add_candidate bob] empty_race)))))
       = COMPLETE
   \<and> winners (snd (run (snd (run (apply_operations [Add_candidate ann, Add_candidate bob] empty_race)))))
       = []"
proof -
  let ?r0 = "apply_operations [Add_candidate ann, Add_candidate bob] empty_race"
  have a: "valid_setup ?r0"
    unfolding valid_setup_def by code_simp
  have b: "state ?r0 = ADDING" "rounds ?r0 = []" "winners ?r0 = []" "voters ?r0 = []"
    by (simp_all add: empty_race_def new_race_def add_candidate_def ann_def bob_def)
  have c: "candidates ?r0 = [ann, bob]" "max_winners ?r0 = 1"
    by (simp_all add: empty_race_def new_race_def add_candidate_def ann_def bob_def)
  from no_voters_completes_in_round_one [OF a b] c show ?thesis
    by simp
qed

section \<open>Rolling over to a new round\<close>

lemma add_candidates_from_states:
  "add_candidates_from cur cs nr0 = Inr nr \<Longrightarrow>
     (\<forall>c. pre_state nr c = (if c \<in> set cs then post_state cur c else pre_state nr0 c))
     \<and> (\<forall>c. post_state nr c = (if c \<in> set cs then post_state cur c else post_state nr0 c))
     \<and> round_candidates nr = round_candidates nr0 @ cs"
proof (induction cs arbitrary: nr0)
  case Nil
  then show ?case by simp
next
  case (Cons c cs)
  from Cons.prems obtain s where s: "post_state cur c = Some s"
    and rest: "add_candidates_from cur cs (round_add_candidate c s nr0) = Inr nr"
    by (auto split: option.splits)
  from Cons.IH [OF rest] s show ?case
    by (auto simp: round_add_candidate_def)
qed

lemma add_candidates_from_total:
  "\<forall>c \<in> set cs. post_state cur c \<noteq> None \<Longrightarrow> \<exists>nr. add_candidates_from cur cs nr0 = Inr nr"
  by (induction cs arbitrary: nr0) auto

lemma add_ballots_buckets:
  "candidate_ballots (add_ballots bs nr) k
     = candidate_ballots nr k @ filter (\<lambda>b. ballot_top b = k) bs"
  unfolding add_ballots_def
  by (induction bs arbitrary: nr) (simp_all add: round_add_ballot_def)

lemma filter_bucket:
  assumes "\<forall>k. \<forall>b \<in> set (candidate_ballots rd k). ballot_top b = k"
  shows "filter (\<lambda>b. ballot_top b = k) (candidate_ballots rd k')
           = (if k' = k then candidate_ballots rd k' else [])"
  using assms by (auto simp: filter_empty_conv filter_id_conv)

lemma concat_single:
  "distinct xs \<Longrightarrow>
     concat (map (\<lambda>y. if y = x then f y else []) xs) = (if x \<in> set xs then f x else [])"
  by (induction xs) auto

lemma create_new_round_buckets:
  assumes wf: "round_wf (candidates r) cur"
    and ids: "inj_on cand_id (set (candidates r))"
    and new: "create_new_round r cur = Inr nr"
  shows "get_exhausted_ballots nr = get_exhausted_ballots cur"
    and "c \<in> set (candidates r) \<Longrightarrow>
           get_candidate_ballots nr c
             = (if c \<in> set (get_candidates_changed cur) then [] else get_candidate_ballots cur c)"
proof -
  let ?e = "empty_round (round_number cur + 1)"
  let ?un = "unchanged_candidates r cur"
  from wf have top: "\<forall>k. \<forall>b \<in> set (candidate_ballots cur k). ballot_top b = k"
    by (simp add: round_wf_def)
  from new obtain nr1 where a: "add_candidates_from cur (candidates r) ?e = Inr nr1"
    and nr: "nr = add_ballots (get_exhausted_ballots cur)
                    (add_ballots (concat (map (get_candidate_ballots cur) ?un)) nr1)"
    by (auto simp: create_new_round_def split: sum.splits)
  have "post_state ?e = pre_state ?e"
    by (simp add: empty_round_def)
  from add_candidates_from_fields [OF a this]
  have b1: "candidate_ballots nr1 k = []" for k
    by (simp add: empty_round_def)
  have bucket: "candidate_ballots nr k
                  = concat (map (\<lambda>c'. if Some (cand_id c') = k then candidate_ballots cur (Some (cand_id c')) else []) ?un)
                    @ (if None = k then candidate_ballots cur None else [])"
    for k
    unfolding nr
    by (simp add: add_ballots_buckets b1 filter_concat comp_def get_candidate_ballots_def
          get_exhausted_ballots_def filter_bucket [OF top])
  show "get_exhausted_ballots nr = get_exhausted_ballots cur"
    by (simp add: get_exhausted_ballots_def bucket)
  show "get_candidate_ballots nr c
          = (if c \<in> set (get_candidates_changed cur) then [] else get_candidate_ballots cur c)"
    if c: "c \<in> set (candidates r)"
  proof -
    have un: "set ?un \<subseteq> set (candidates r)" "distinct ?un"
      by (auto simp: unchanged_candidates_def)
    have "(\<lambda>c'. if Some (cand_id c') = Some (cand_id c) then candidate_ballots cur (Some (cand_id c')) else [])  c'
            = (\<lambda>c'. if c' = c then candidate_ballots cur (Some (cand_id c')) else []) c'"
      if "c' \<in> set ?un" for c'
      using that un(1) c ids by (auto dest: inj_onD)
    then have "concat (map (\<lambda>c'. if Some (cand_id c') = Some (cand_id c)
                                  then candidate_ballots cur (Some (cand_id c')) else []) ?un)
                 = concat (map (\<lambda>c'. if c' = c then candidate_ballots cur (Some (cand_id c')) else []) ?un)"
      by (intro arg_cong [where f = concat] map_cong) simp_all
    also have "\<dots> = (if c \<in> set ?un then candidate_ballots cur (Some (cand_id c)) else [])"
      using un(2) by (rule concat_single)
    finally show ?thesis
      using c by (simp add: get_candidate_ballots_def bucket unchanged_candidates_def)
  qed
qed

section \<open>Reachable races have well-formed rounds\<close>

lemma round_wf_marks: "marks k cs rd rd' \<Longrightarrow> round_wf xs rd \<Longrightarrow> round_wf xs rd'"
  by (simp add: round_wf_def marks_def)

lemma round_wf_round_complete [simp]: "round_wf xs (round_complete rd) = round_wf xs rd"
  by (simp add: round_wf_def round_complete_def)

lemma round_wf_add_ballot: "round_wf xs rd \<Longrightarrow> round_wf xs (round_add_ballot b rd)"
  by (simp add: round_wf_def round_add_ballot_def)

lemma round_wf_first_round: "round_wf (candidates r) (first_round r)"
proof -
  have "post_state (first_round r) c \<noteq> None" if "c \<in> set (candidates r)" for c
    using that foldl_add_candidate_states
      [of "\<lambda>c. \<lparr>state_round = 1, state_candidate = c, state_kind = RUNNING\<rparr>"
          "empty_round 1" "candidates r"]
    by (simp add: first_round_fields(1)) (simp add: first_round_def)
  then show ?thesis
    by (simp add: round_wf_def first_round_fields)
qed

lemma add_candidates_from_present:
  "add_candidates_from cur cs nr0 = Inr nr \<Longrightarrow> c \<in> set cs \<Longrightarrow> post_state cur c \<noteq> None"
  by (induction cs arbitrary: nr0) (auto split: option.splits)

lemma round_wf_create_new_round:
  assumes "create_new_round r cur = Inr nr"
  shows "round_wf (candidates r) nr"
proof -
  let ?e = "empty_round (round_number cur + 1)"
  from assms obtain nr1 where a: "add_candidates_from cur (candidates r) ?e = Inr nr1"
    and nr: "nr = add_ballots (get_exhausted_ballots cur)
                    (add_ballots (concat (map (get_candidate_ballots cur) (unchanged_candidates r cur))) nr1)"
    by (auto simp: create_new_round_def split: sum.splits)
  have "post_state ?e = pre_state ?e"
    by (simp add: empty_round_def)
  from add_candidates_from_fields [OF a this]
  have b1: "candidate_ballots nr1 k = []" for k
    by (simp add: empty_round_def)
  have some: "post_state nr1 c \<noteq> None" if "c \<in> set (candidates r)" for c
    using add_candidates_from_states [OF a] add_candidates_from_present [OF a that] that
    by simp
  show ?thesis
    unfolding round_wf_def nr
    by (auto simp: add_ballots_buckets b1 add_ballots_fields some)
qed

lemma finish_with_winners_wf:
  "\<exists>rd. rounds (finish_with_winners r cur) = butlast (rounds r) @ [rd]
        \<and> (round_wf xs cur \<longrightarrow> round_wf xs rd)
        \<and> (state (finish_with_winners r cur) = state r
            \<or> state (finish_with_winners r cur) = COMPLETE)
        \<and> candidates (finish_with_winners r cur) = candidates r"
  using round_wf_marks [OF eliminate_remaining_marks, of xs cur]
  by (simp add: finish_with_winners_def Let_def set_round_latest_def)

lemma tabulate_rounds_wf:
  assumes vs: "valid_setup r0"
  shows "\<exists>rd. rounds (snd (tabulate r0 cur0)) = butlast (rounds r0) @ [rd]
          \<and> (round_wf xs cur0 \<longrightarrow> round_wf xs rd)
          \<and> (state (snd (tabulate r0 cur0)) = state r0
              \<or> state (snd (tabulate r0 cur0)) = COMPLETE)"
proof -
  let ?scores = "get_candidate_score cur0"
  let ?running = "get_candidates_by_state pre_state RUNNING cur0"
  obtain r cur where start: "tabulation_start r0 cur0 ?running = (r, cur)"
    by (cases "tabulation_start r0 cur0 ?running")
  then have s1: "same_setup r0 r" and f1: "rounds r = rounds r0"
    "state r = state r0 \<or> state r = COMPLETE" "round_wf xs cur = round_wf xs cur0"
    by (auto simp: tabulation_start_def Let_def same_setup_def split: if_splits)
  from s1 vs have v1: "valid_setup r"
    by (rule same_setup_valid)
  show ?thesis
  proof (cases "round_winners r cur ?scores ?running")
    case (Inl e)
    with start have "snd (tabulate r0 cur0) = set_round_latest cur r"
      by (simp add: tabulate_def Let_def)
    with f1 show ?thesis
      by (auto simp: set_round_latest_def)
  next
    case (Inr ws)
    from valid_setup_quota [OF v1] obtain q where q: "quota r = Inr q"
      by blast
    have mN: "marks WON [] cur cur"
      by simp
    from commit_winners_effect [OF q mN, where ws = ws and scores = ?scores]
    obtain r2 cur2 where com: "commit_winners ws ?scores (r, cur) = (None, r2, cur2)"
      and m2: "marks WON ws cur cur2"
      and f2: "state r2 = state r" "rounds r2 = rounds r"
      by auto
    have w2: "round_wf xs cur0 \<longrightarrow> round_wf xs cur2"
      using round_wf_marks [OF m2, of xs] f1(3) by simp
    have res: "snd (tabulate r0 cur0)
                 = (if ws \<noteq> [] then finish_with_winners r2 cur2
                    else eliminate_lowest r2 cur2 ?scores ?running)"
      using start Inr com by (simp add: tabulate_def Let_def)
    show ?thesis
    proof (cases "ws = []")
      case False
      from finish_with_winners_wf [where r = r2 and cur = cur2 and xs = xs]
      obtain rd where "rounds (finish_with_winners r2 cur2) = butlast (rounds r2) @ [rd]"
        "round_wf xs cur2 \<longrightarrow> round_wf xs rd"
        "state (finish_with_winners r2 cur2) = state r2
         \<or> state (finish_with_winners r2 cur2) = COMPLETE"
        by blast
      with res False f1 f2 w2 show ?thesis
        by auto
    next
      case True
      from eliminate_lowest_effect
        [where scores = ?scores and running = ?running and cur = cur2 and r = r2]
      obtain cur' where el: "marks ELIMINATED (eliminated_candidates ?scores ?running) cur2 cur'"
        "rounds (eliminate_lowest r2 cur2 ?scores ?running) = butlast (rounds r2) @ [round_complete cur']"
        "state (eliminate_lowest r2 cur2 ?scores ?running) = state r2"
        by blast
      have "round_wf xs cur0 \<longrightarrow> round_wf xs (round_complete cur')"
        using round_wf_marks [OF el(1), of xs] w2 by simp
      with res True el(2,3) f1 f2 show ?thesis
        by auto
    qed
  qed
qed

lemma rounds_wf_run:
  assumes vs: "valid_setup r0" and wf: "rounds_wf r0"
  shows "rounds_wf (snd (run r0))"
proof (cases "state r0 = COMPLETE")
  case True
  with wf show ?thesis by (simp add: run_def)
next
  case False
  let ?r = "r0\<lparr>state := TABULATING\<rparr>"
  have vr: "valid_setup ?r"
    using vs by (simp add: valid_setup_def)
  from wf have all: "\<And>rd. rd \<in> set (rounds r0) \<Longrightarrow> round_wf (candidates r0) rd"
    by (simp add: rounds_wf_def)
  show ?thesis
  proof (cases "rounds r0 = []")
    case True
    then have "snd (run r0) = ?r\<lparr>rounds := [first_round ?r], transfer_voters := voters r0\<rparr>"
      using False by (simp add: run_def get_round_latest_def Let_def)
    moreover have "round_wf (candidates r0) (first_round ?r)"
      using round_wf_first_round [of ?r] by simp
    ultimately show ?thesis
      by (simp add: rounds_wf_def)
  next
    case rs: False
    let ?cur = "last (rounds r0)"
    have latest: "get_round_latest ?r = Some ?cur"
      using rs by (simp add: get_round_latest_def)
    have wcur: "round_wf (candidates r0) ?cur"
      using rs by (intro all) simp
    show ?thesis
    proof (cases "round_status ?cur = ROUND_COMPLETE")
      case True
      show ?thesis
      proof (cases "create_new_round ?r ?cur")
        case (Inl e)
        with False latest True have "snd (run r0) = ?r"
          by (simp add: run_def Let_def)
        with wf show ?thesis by (simp add: rounds_wf_def)
      next
        case (Inr nr)
        with False latest True have res: "snd (run r0) = ?r\<lparr>rounds := rounds r0 @ [nr]\<rparr>"
          by (simp add: run_def Let_def)
        have "round_wf (candidates r0) nr"
          using round_wf_create_new_round [OF Inr] by simp
        with res all show ?thesis
          by (auto simp: rounds_wf_def)
      qed
    next
      case open_round: False
      show ?thesis
      proof (cases "transfer_voters r0")
        case Nil
        with False latest open_round have res: "snd (run r0) = snd (tabulate ?r ?cur)"
          by (simp add: run_def Let_def)
        from tabulate_rounds_wf [OF vr, of ?cur "candidates r0"]
        obtain rd where t: "rounds (snd (tabulate ?r ?cur)) = butlast (rounds r0) @ [rd]"
          "round_wf (candidates r0) ?cur \<longrightarrow> round_wf (candidates r0) rd"
          "state (snd (tabulate ?r ?cur)) = TABULATING \<or> state (snd (tabulate ?r ?cur)) = COMPLETE"
          by auto
        have "candidates (snd (tabulate ?r ?cur)) = candidates r0"
          using same_setup_tabulate [of ?r ?cur] by (simp add: same_setup_def)
        with t wcur all show ?thesis
          unfolding res rounds_wf_def
          by (auto dest: in_set_butlastD)
      next
        case (Cons v vs)
        with False latest open_round
        have res: "snd (run r0) = cast_ballot ?r ?cur v vs"
          by (simp add: run_def Let_def)
        show ?thesis
          unfolding res rounds_wf_def
          using all wcur
          by (auto simp: cast_ballot_def Let_def set_round_latest_def round_wf_add_ballot
                dest: in_set_butlastD)
      qed
    qed
  qed
qed

lemma rounds_wf_apply_operation:
  assumes "valid_setup r" and "rounds_wf r"
  shows "rounds_wf (snd (apply_operation operation r))"
proof (cases operation)
  case (Add_candidate c)
  with assms(2) show ?thesis
    by (auto simp: add_candidate_def rounds_wf_def)
next
  case (Add_voter v)
  with assms(2) show ?thesis
    by (auto simp: add_voter_def rounds_wf_def)
next
  case Run
  with assms show ?thesis
    by (simp add: rounds_wf_run)
qed

lemma rounds_wf_apply_operations:
  "valid_setup r \<Longrightarrow> rounds_wf r \<Longrightarrow> rounds_wf (apply_operations ops r)"
proof (induction ops arbitrary: r)
  case Nil
  then show ?case by simp
next
  case (Cons operation ops)
  then show ?case
    by (simp add: valid_setup_apply_operation rounds_wf_apply_operation)
qed

text \<open>
  C8.  In a race reached by any sequence of calls (set up with at least one seat and the
  Droop or the Hare quota, its candidates having distinct ids), when \<open>run\<close> is called and
  the latest round \<open>cur\<close> is complete, a new round with the next number is appended; the
  pre-state of every candidate in it is the candidate's post-state in \<open>cur\<close>; the ballots
  of every candidate whose state did not change in \<open>cur\<close>, and the exhausted ballots of
  \<open>cur\<close>, are in the new round as they were; and a candidate whose state changed in \<open>cur\<close>
  has no ballots in the new round.
\<close>

theorem rollover_creates_next_round:
  fixes ops :: "operation list" and i p x a :: string and m :: int
  defines "R \<equiv> apply_operations ops (new_race i p m x a)"
  assumes "1 \<le> m" and "a = ''droop'' \<or> a = ''hare''"
    and "distinct (map cand_id (candidates R))"
    and "state R \<noteq> COMPLETE"
    and "get_round_latest R = Some cur" and "round_status cur = ROUND_COMPLETE"
  shows "\<exists>nr. run R = (None, R\<lparr>state := TABULATING, rounds := rounds R @ [nr]\<rparr>)
           \<and> round_number nr = round_number cur + 1
           \<and> round_status nr = ROUND_INCOMPLETE
           \<and> (\<forall>c \<in> set (candidates R).
                 pre_state nr c = post_state cur c
                 \<and> get_candidate_ballots nr c
                     = (if c \<in> set (get_candidates_changed cur) then []
                        else get_candidate_ballots cur c))
           \<and> get_exhausted_ballots nr = get_exhausted_ballots cur"
proof -
  let ?r = "R\<lparr>state := TABULATING\<rparr>"
  have v0: "valid_setup (new_race i p m x a)"
    using assms(2,3) by (auto simp: valid_setup_def new_race_def)
  have w0: "rounds_wf (new_race i p m x a)"
    by (simp add: rounds_wf_def new_race_def)
  have wf: "rounds_wf R"
    unfolding R_def using v0 w0 by (rule rounds_wf_apply_operations)
  from assms(6) have rs: "rounds R \<noteq> []" and cur: "cur = last (rounds R)"
    by (auto simp: get_round_latest_def split: if_splits)
  from wf rs cur have wcur: "round_wf (candidates ?r) cur"
    by (simp add: rounds_wf_def)
  then have "\<forall>c \<in> set (candidates ?r). post_state cur c \<noteq> None"
    by (simp add: round_wf_def)
  from add_candidates_from_total [OF this, of "empty_round (round_number cur + 1)"]
  obtain nr where new: "create_new_round ?r cur = Inr nr"
    by (auto simp: create_new_round_def)
  have ids: "inj_on cand_id (set (candidates ?r))"
    using assms(4) by (simp add: distinct_map)
  have latest: "get_round_latest ?r = Some cur"
    using rs cur by (simp add: get_round_latest_def)
  have step: "run R = (None, R\<lparr>state := TABULATING, rounds := rounds R @ [nr]\<rparr>)"
    using assms(5,7) latest new by (simp add: run_def Let_def)
  from new obtain nr1 where a: "add_candidates_from cur (candidates ?r) (empty_round (round_number cur + 1)) = Inr nr1"
    and nr: "nr = add_ballots (get_exhausted_ballots cur)
                    (add_ballots (concat (map (get_candidate_ballots cur) (unchanged_candidates ?r cur))) nr1)"
    by (auto simp: create_new_round_def split: sum.splits)
  have pre: "pre_state nr c = post_state cur c" if "c \<in> set (candidates R)" for c
    using add_candidates_from_states [OF a] that
    by (simp add: nr add_ballots_fields)
  have buckets: "get_candidate_ballots nr c
                   = (if c \<in> set (get_candidates_changed cur) then []
                      else get_candidate_ballots cur c)"
    if "c \<in> set (candidates R)" for c
    using create_new_round_buckets(2) [OF wcur ids new, of c] that by simp
  have "get_exhausted_ballots nr = get_exhausted_ballots cur"
    using wcur ids new by (rule create_new_round_buckets(1))
  with step pre buckets create_new_round_fields(2,3) [OF new] show ?thesis
    by auto
qed

theorem rollover_creates_next_round_witness:
  "fst (run two_seat_race) = None
   \<and> length (rounds (snd (run two_seat_race))) = 2
   \<and> round_number (last (rounds (snd (run two_seat_race)))) = 2
   \<and> map_option state_kind (pre_state (last (rounds (snd (run two_seat_race)))) ann) = Some WON
   \<and> get_candidate_ballots (last (rounds (snd (run two_seat_race)))) ann = []
   \<and> get_candidate_ballots (last (rounds (snd (run two_seat_race)))) bob
       = [\<lparr>ballot_voter = mk_voter ''3'' [''B''], ballot_value = 1, ballot_preferences = [''B'']\<rparr>]"
proof -
  let ?cur = "last (rounds two_seat_race)"
  have len: "length (rounds two_seat_race) = 1"
    by code_simp
  then have "rounds two_seat_race \<noteq> []"
    by auto
  then have latest: "get_round_latest two_seat_race = Some ?cur"
    by (simp add: get_round_latest_def)
  have ids: "distinct (map cand_id (candidates two_seat_race))"
    by code_simp
  have st: "state two_seat_race \<noteq> COMPLETE"
    by code_simp
  have com: "round_status ?cur = ROUND_COMPLETE"
    by code_simp
  have facts: "ann \<in> set (candidates two_seat_race)" "bob \<in> set (candidates two_seat_race)"
    "ann \<in> set (get_candidates_changed ?cur)" "bob \<notin> set (get_candidates_changed ?cur)"
    "map_option state_kind (post_state ?cur ann) = Some WON"
    "get_candidate_ballots ?cur bob
       = [\<lparr>ballot_voter = mk_voter ''3'' [''B''], ballot_value = 1, ballot_preferences = [''B'']\<rparr>]"
    "round_number ?cur = 1"
    by code_simp+
  from rollover_creates_next_round
    [of 2 "''droop''" two_seat_operations "''3''" "''Board''" "[]" ?cur,
     folded two_seat_race_def, OF _ _ ids st latest com]
  obtain nr where nr: "run two_seat_race
                         = (None, two_seat_race\<lparr>state := TABULATING, rounds := rounds two_seat_race @ [nr]\<rparr>)"
    "round_number nr = round_number ?cur + 1"
    "\<forall>c \<in> set (candidates two_seat_race).
        pre_state nr c = post_state ?cur c
        \<and> get_candidate_ballots nr c
            = (if c \<in> set (get_candidates_changed ?cur) then [] else get_candidate_ballots ?cur c)"
    by auto
  from nr(3) facts(1,2) have
    "pre_state nr ann = post_state ?cur ann"
    "get_candidate_ballots nr ann
       = (if ann \<in> set (get_candidates_changed ?cur) then [] else get_candidate_ballots ?cur ann)"
    "get_candidate_ballots nr bob
       = (if bob \<in> set (get_candidates_changed ?cur) then [] else get_candidate_ballots ?cur bob)"
    by blast+
  with facts(3-7) nr(1,2) len show ?thesis
    by simp
qed

section \<open>The order of the data table\<close>

text \<open>
  C5, as stated, fails.  The claim says the WON rows come sorted with the most recent
  winning round first.  In the two-seat race Ann won in round 1 and Bob in round 2, and
  the table of round 2 lists Ann before Bob: the first component of the sort key is the
  winning round minus the round of the table, so the earliest winner comes first.
\<close>

theorem data_table_won_order_counterexample:
  "table_view two_seat_final 1
     = (Inr [(''Ann'', ''WON''), (''Bob'', ''WON''), (''Cyd'', ''ELIMINATED'')],
        [(''Ann'', 1), (''Bob'', 2)])"
  by code_simp

text \<open>
  C5, amended.  In the data table produced for a round, the rows of the WON candidates
  come first and are sorted by: earliest winning round first, then higher score at the
  winning round, then party, then name.  (The sort key is the tuple of the winning round
  minus the table's round, the negated score, the party and the name, compared
  lexicographically; \<open>won\<close> below is the WON group in the order of its rows.)
\<close>

theorem data_table_won_first:
  assumes "get_data_table r i = Inr rows"
  defines "rd \<equiv> rounds r ! i"
  defines "which \<equiv> (if round_status rd = ROUND_INCOMPLETE then pre_state else post_state)"
  defines "won \<equiv> table_group_won r rd which"
  shows "\<exists>q rest. quota r = Inr q
           \<and> rows = map (won_row r q) won @ rest
           \<and> (\<forall>row \<in> set (map (won_row r q) won). row_status row = ''WON'')
           \<and> (\<forall>row \<in> set rest. row_status row \<noteq> ''WON'')
           \<and> mset won = mset (candidates_with_state which WON rd)
           \<and> sorted (map (won_key r rd) won)
           \<and> (\<forall>cs \<in> set won.
                 won_key r rd cs
                   = (int (state_round (snd cs)) - int (round_number rd),
                      - score_in_round r (state_round (snd cs)) (fst cs),
                      cand_party (fst cs), cand_name (fst cs)))"
proof -
  from assms(1) have i: "i < length (rounds r)"
    by (auto simp: get_data_table_def split: if_splits)
  with assms(1) obtain q where q: "quota r = Inr q"
    by (auto simp: get_data_table_def Let_def split: sum.splits)
  let ?changed = "if i = 0 then [] else get_candidates_changed (rounds r ! (i - 1))"
  let ?rest = "map (running_row rd q) (table_group_running rd which)
               @ map (eliminated_row r rd ?changed) (table_group_eliminated r rd which)"
  have rows: "rows = map (won_row r q) won @ ?rest"
    using assms(1) i q
    by (simp add: get_data_table_def Let_def won_def which_def rd_def)
  have w: "row_status row = ''WON''" if "row \<in> set (map (won_row r q) won)" for row
    using that by (auto simp: won_row_def Let_def split: prod.splits)
  have nw: "row_status row \<noteq> ''WON''" if "row \<in> set ?rest" for row
    using that
    by (auto simp: running_row_def eliminated_row_def Let_def split: prod.splits if_splits)
  have perm: "mset won = mset (candidates_with_state which WON rd)"
    by (simp add: won_def table_group_won_def)
  have srt: "sorted (map (won_key r rd) won)"
    by (simp add: won_def table_group_won_def)
  have key: "won_key r rd cs
               = (int (state_round (snd cs)) - int (round_number rd),
                  - score_in_round r (state_round (snd cs)) (fst cs),
                  cand_party (fst cs), cand_name (fst cs))" for cs
    by (simp add: won_key_def split: prod.splits)
  from q rows w nw perm srt key show ?thesis
    by blast
qed

theorem data_table_won_first_witness:
  "quota two_seat_final = Inr 2
   \<and> map (won_key two_seat_final (rounds two_seat_final ! 1))
        (table_group_won two_seat_final (rounds two_seat_final ! 1) post_state)
       = [(- 1, - 2, ''Red'', ''Ann''), (0, - 2, ''Red'', ''Bob'')]
   \<and> sorted (map (won_key two_seat_final (rounds two_seat_final ! 1))
        (table_group_won two_seat_final (rounds two_seat_final ! 1) post_state))"
proof -
  let ?R = "two_seat_final"
  let ?rd = "rounds ?R ! 1"
  have ok: "\<not> isl (get_data_table ?R 1)"
    by code_simp
  then have tab: "get_data_table ?R 1 = Inr (projr (get_data_table ?R 1))"
    by simp
  have com: "round_status ?rd = ROUND_COMPLETE"
    by code_simp
  have q: "quota ?R = Inr 2"
    by code_simp
  have keys: "map (won_key ?R ?rd) (table_group_won ?R ?rd post_state)
                = [(- 1, - 2, ''Red'', ''Ann''), (0, - 2, ''Red'', ''Bob'')]"
    by code_simp
  from data_table_won_first [OF tab] com
  have "sorted (map (won_key ?R ?rd) (table_group_won ?R ?rd post_state))"
    by auto
  with q keys show ?thesis
    by simp
qed

end
